theory Spec2Isabelle
  imports Main "HOL-Library.Char_ord" "HOL-Library.List_Lexorder"
    "HOL-Library.Product_Lexorder" "HOL-Library.Multiset"
begin

section \<open>Data model\<close>

text \<open>
  Numbers. The segment fields are modelled on the integer-valued numbers, as unbounded
  \<open>int\<close>. An \<open>int\<close> stands for a number of the code when it is one the code holds
  exactly; every integer up to \<^verbatim>\<open>Number.MAX_SAFE_INTEGER\<close> in absolute value is
  (\<open>safeInt\<close> below), and on those the arithmetic, the printing and the parsing of the
  model are the code's. The center is the one number the code inspects with \<^verbatim>\<open>Number.isInteger\<close>,
  so it gets its own type: an integer, or a number that is not an integer (NaN, an
  infinity, a fraction). The code does only two things with a non-integer center: it
  tests \<^verbatim>\<open>Number.isInteger\<close> and it prints it with \<^verbatim>\<open>toString\<close>; such a number is
  therefore carried as the text \<^verbatim>\<open>toString\<close> gives for it.
\<close>

datatype jsnum = JInt int | JNonInt string

definition NaN :: jsnum where
  "NaN = JNonInt ''NaN''"

text \<open>\<^verbatim>\<open>interface EdgeSeg { size; offset }\<close>\<close>

record EdgeSeg =
  size_seg :: int
  offset :: int

text \<open>The object literal \<^verbatim>\<open>{ size: s, offset: off }\<close>.\<close>

definition mkSeg :: "int \<Rightarrow> int \<Rightarrow> EdgeSeg" where
  "mkSeg s off = \<lparr>size_seg = s, offset = off\<rparr>"

text \<open>\<^verbatim>\<open>class Corona { center; edges }\<close>\<close>

record Corona =
  center :: jsnum
  edges :: "EdgeSeg list list"

text \<open>The shapes of the \<^verbatim>\<open>where\<close> field of a validation result.\<close>

datatype location =
    AtEdge nat
  | AtSeg nat EdgeSeg
  | AtPair nat EdgeSeg EdgeSeg
  | AtSizes "int list"

text \<open>\<^verbatim>\<open>interface ValidationResult { ok; reason?; where? }\<close>\<close>

record ValidationResult =
  ok :: bool
  reason :: "string option"
  whereLoc :: "location option"

text \<open>What the code can throw.\<close>

datatype exn = TypeError | Error string

section \<open>Sorting\<close>

text \<open>
  \<^verbatim>\<open>[...e].sort(cmp)\<close>: the stable sort of a copy by a comparator (negative: first
  argument first). Stable insertion sort is the model.
\<close>

fun insertWith :: "('a \<Rightarrow> 'a \<Rightarrow> int) \<Rightarrow> 'a \<Rightarrow> 'a list \<Rightarrow> 'a list" where
  "insertWith cmp x [] = [x]"
| "insertWith cmp x (y # ys) =
     (if cmp x y \<le> 0 then x # y # ys else y # insertWith cmp x ys)"

definition sortWith :: "('a \<Rightarrow> 'a \<Rightarrow> int) \<Rightarrow> 'a list \<Rightarrow> 'a list" where
  "sortWith cmp xs = foldr (insertWith cmp) xs []"

text \<open>\<^verbatim>\<open>(a, b) => a.offset !== b.offset ? a.offset - b.offset : a.size - b.size\<close>\<close>

definition byOffsetThenSize :: "EdgeSeg \<Rightarrow> EdgeSeg \<Rightarrow> int" where
  "byOffsetThenSize a b =
     (if offset a \<noteq> offset b then offset a - offset b else size_seg a - size_seg b)"

text \<open>\<^verbatim>\<open>(a, b) => a.offset - b.offset\<close>\<close>

definition byOffset :: "EdgeSeg \<Rightarrow> EdgeSeg \<Rightarrow> int" where
  "byOffset a b = offset a - offset b"

section \<open>Validation\<close>

definition failure :: "string \<Rightarrow> location option \<Rightarrow> ValidationResult" where
  "failure r w = \<lparr>ok = False, reason = Some r, whereLoc = w\<rparr>"

definition success :: ValidationResult where
  "success = \<lparr>ok = True, reason = None, whereLoc = None\<rparr>"

text \<open>\<^verbatim>\<open>for (const seg of segs)\<close>: sizes, offsets and the center-sized aligned square.\<close>

fun segLoop :: "int \<Rightarrow> int list \<Rightarrow> nat \<Rightarrow> EdgeSeg list \<Rightarrow> ValidationResult option" where
  "segLoop c allowedSizes ei [] = None"
| "segLoop c allowedSizes ei (seg # rest) =
     (if size_seg seg \<notin> set allowedSizes \<or> size_seg seg \<le> 0
        then Some (failure ''invalid segment size'' (Some (AtSeg ei seg)))
      else if offset seg < 0 \<or> offset seg > c
        then Some (failure ''offset out of range'' (Some (AtSeg ei seg)))
      else if size_seg seg = c \<and> offset seg = 0
        then Some (failure ''not unilateral (center-sized aligned)'' (Some (AtSeg ei seg)))
      else segLoop c allowedSizes ei rest)"

text \<open>First loop over \<^verbatim>\<open>i < segs.length - 1\<close>: no equal sizes consecutively.\<close>

fun adjacentLoop :: "nat \<Rightarrow> EdgeSeg list \<Rightarrow> ValidationResult option" where
  "adjacentLoop ei (a # b # rest) =
     (if size_seg a = size_seg b
        then Some (failure ''not unilateral (equal adjacent sizes)'' (Some (AtPair ei a b)))
      else adjacentLoop ei (b # rest))"
| "adjacentLoop ei segs = None"

text \<open>Second loop over \<^verbatim>\<open>i < segs.length - 1\<close>: a real walk.\<close>

fun walkLoop :: "nat \<Rightarrow> EdgeSeg list \<Rightarrow> ValidationResult option" where
  "walkLoop ei (prev # nxt # rest) =
     (if offset nxt \<noteq> offset prev + size_seg prev
        then Some (failure ''invalid edge walk'' (Some (AtPair ei prev nxt)))
      else walkLoop ei (nxt # rest))"
| "walkLoop ei segs = None"

text \<open>
  The body of the loop over the edges, for edge \<open>ei\<close>: \<open>Inr None\<close> when the edge passes,
  \<open>Inr (Some r)\<close> when the body returns \<open>r\<close>. Reading \<^verbatim>\<open>segs[0].offset\<close> or
  \<^verbatim>\<open>segs[segs.length - 1].offset\<close> of an empty array throws a TypeError. The part
  after the sort, on the sorted copy \<^verbatim>\<open>segs\<close>, comes first; the whole body follows.
\<close>

definition checkSorted :: "int \<Rightarrow> int list \<Rightarrow> nat \<Rightarrow> EdgeSeg list \<Rightarrow> exn + ValidationResult option" where
  "checkSorted c allowedSizes ei segs =
     (case segLoop c allowedSizes ei segs of
        Some r \<Rightarrow> Inr (Some r)
      | None \<Rightarrow>
         (case adjacentLoop ei segs of
            Some r \<Rightarrow> Inr (Some r)
          | None \<Rightarrow>
             (case segs of
                [] \<Rightarrow> Inl TypeError
              | s0 # _ \<Rightarrow>
                  if offset s0 \<noteq> 0
                    then Inr (Some (failure ''edge does not start at 0'' (Some (AtEdge ei))))
                  else
                    (case walkLoop ei segs of
                       Some r \<Rightarrow> Inr (Some r)
                     | None \<Rightarrow>
                         let currentEnd = offset (last segs) + size_seg (last segs) in
                         if currentEnd < c
                           then Inr (Some (failure ''edge does not reach center length''
                                            (Some (AtEdge ei))))
                         else Inr None))))"

definition checkEdge :: "int \<Rightarrow> int list \<Rightarrow> nat \<Rightarrow> EdgeSeg list \<Rightarrow> exn + ValidationResult option" where
  "checkEdge c allowedSizes ei edge =
     (if length edge = 0 then Inr (Some (failure ''edge empty'' (Some (AtEdge ei))))
      else
        let segs = sortWith byOffsetThenSize edge
        in checkSorted c allowedSizes ei segs)"

text \<open>\<^verbatim>\<open>for (let ei = 0; ei < this.edges.length; ei++)\<close>, from edge \<open>ei\<close> on.\<close>

fun edgeLoop :: "int \<Rightarrow> int list \<Rightarrow> nat \<Rightarrow> EdgeSeg list list \<Rightarrow> exn + ValidationResult option" where
  "edgeLoop c allowedSizes ei [] = Inr None"
| "edgeLoop c allowedSizes ei (edge # rest) =
     (case checkEdge c allowedSizes ei edge of
        Inl e \<Rightarrow> Inl e
      | Inr (Some r) \<Rightarrow> Inr (Some r)
      | Inr None \<Rightarrow> edgeLoop c allowedSizes (Suc ei) rest)"

text \<open>\<^verbatim>\<open>this.edges[i]\<close>: undefined out of range.\<close>

definition edgeAt :: "EdgeSeg list list \<Rightarrow> nat \<Rightarrow> EdgeSeg list option" where
  "edgeAt es i = (if i < length es then Some (es ! i) else None)"

text \<open>
  One round of the corner loop: whether corner \<open>ei\<close> has a 1x1 gap, and the size of the
  last segment of edge \<open>ei\<close>. Spreading an undefined edge, and reading a field of the
  last or first element of an empty array, throw a TypeError. The part after the two
  sorts, on the sorted copies, comes first.
\<close>

definition cornerOfSorted :: "int \<Rightarrow> EdgeSeg list \<Rightarrow> EdgeSeg list \<Rightarrow> exn + (bool \<times> int)" where
  "cornerOfSorted c segs nextSegs =
     (if segs = [] then Inl TypeError
      else
        let lastSeg = last segs;
            overhang = offset lastSeg + size_seg lastSeg - c
        in if nextSegs = [] then Inl TypeError
           else
             let firstSegSize = size_seg (hd nextSegs)
             in Inr (overhang = 1 \<and> firstSegSize = 1, size_seg lastSeg))"

definition cornerStep :: "int \<Rightarrow> EdgeSeg list list \<Rightarrow> nat \<Rightarrow> exn + (bool \<times> int)" where
  "cornerStep c es ei =
     (case edgeAt es ei of
        None \<Rightarrow> Inl TypeError
      | Some edge \<Rightarrow>
         (case edgeAt es ((ei + 1) mod 4) of
            None \<Rightarrow> Inl TypeError
          | Some nextEdge \<Rightarrow>
              let segs = sortWith byOffset edge;
                  nextSegs = sortWith byOffset nextEdge
              in cornerOfSorted c segs nextSegs))"

text \<open>
  \<^verbatim>\<open>for (let ei = 0; ei < 4; ei++)\<close> over the remaining indices, with the running
  \<^verbatim>\<open>hasCornerGap\<close> and \<^verbatim>\<open>lastSegSizes\<close>.
\<close>

fun cornerLoop :: "int \<Rightarrow> EdgeSeg list list \<Rightarrow> nat list \<Rightarrow> bool \<Rightarrow> int list
    \<Rightarrow> exn + (bool \<times> int list)" where
  "cornerLoop c es [] hasCornerGap lastSegSizes = Inr (hasCornerGap, lastSegSizes)"
| "cornerLoop c es (ei # eis) hasCornerGap lastSegSizes =
     (case cornerStep c es ei of
        Inl e \<Rightarrow> Inl e
      | Inr (gap, s) \<Rightarrow> cornerLoop c es eis (hasCornerGap \<or> gap) (lastSegSizes @ [s]))"

text \<open>\<^verbatim>\<open>lastSegSizes.every(s => s === lastSegSizes[0])\<close>\<close>

definition allSame :: "int list \<Rightarrow> bool" where
  "allSame lastSegSizes = list_all (\<lambda>s. s = lastSegSizes ! 0) lastSegSizes"

text \<open>\<^verbatim>\<open>Corona.validate(allowedSizes)\<close>\<close>

definition validate :: "Corona \<Rightarrow> int list \<Rightarrow> exn + ValidationResult" where
  "validate cor allowedSizes =
     (case center cor of
        JNonInt _ \<Rightarrow> Inr (failure ''center must be a positive integer'' None)
      | JInt c \<Rightarrow>
          if c \<le> 0 then Inr (failure ''center must be a positive integer'' None)
          else if length (edges cor) \<noteq> 4 then Inr (failure ''edges must have length 4'' None)
          else
            (case edgeLoop c allowedSizes 0 (edges cor) of
               Inl e \<Rightarrow> Inl e
             | Inr (Some r) \<Rightarrow> Inr r
             | Inr None \<Rightarrow>
                (case cornerLoop c (edges cor) [0, 1, 2, 3] False [] of
                   Inl e \<Rightarrow> Inl e
                 | Inr (hasCornerGap, lastSegSizes) \<Rightarrow>
                     if hasCornerGap \<and> \<not> allSame lastSegSizes
                       then Inr (failure ''1x1 corner gap with asymmetric edges''
                                   (Some (AtSizes lastSegSizes)))
                     else Inr success)))"

text \<open>The default \<^verbatim>\<open>allowedSizes = [1, 2, 3, 4]\<close>.\<close>

definition defaultSizes :: "int list" where
  "defaultSizes = [1, 2, 3, 4]"

section \<open>Strings and canonical rotation\<close>

text \<open>Decimal digits of a natural number, most significant first.\<close>

definition digitChar :: "nat \<Rightarrow> char" where
  "digitChar d = ''0123456789'' ! d"

fun digitsOf :: "nat \<Rightarrow> string" where
  "digitsOf n = (if n < 10 then [digitChar n] else digitsOf (n div 10) @ [digitChar (n mod 10)])"

declare digitsOf.simps [simp del]

text \<open>
  \<^verbatim>\<open>Number.prototype.toString\<close> on an integer: its decimal digits. This is what the code
  prints for the integers up to \<^verbatim>\<open>Number.MAX_SAFE_INTEGER\<close> in absolute value. Larger
  numbers are printed by the code from their shortest digits, in exponent form from
  \<^verbatim>\<open>1e21\<close> on; the model does not follow the code there, and what is stated about
  printed text is stated for numbers in that range.
\<close>

definition intToString :: "int \<Rightarrow> string" where
  "intToString n = (if n < 0 then ''-'' @ digitsOf (nat (- n)) else digitsOf (nat n))"

definition numToString :: "jsnum \<Rightarrow> string" where
  "numToString x = (case x of JInt n \<Rightarrow> intToString n | JNonInt t \<Rightarrow> t)"

text \<open>\<^verbatim>\<open>Array.prototype.join(sep)\<close> on an array of strings.\<close>

fun join :: "string \<Rightarrow> string list \<Rightarrow> string" where
  "join sep [] = []"
| "join sep [x] = x"
| "join sep (x # y # ys) = x @ sep @ join sep (y # ys)"

text \<open>\<^verbatim>\<open>JSON.stringify\<close> of an array of two-element arrays of integers.\<close>

definition stringifyPairs :: "(int \<times> int) list \<Rightarrow> string" where
  "stringifyPairs ps =
     ''['' @ join '','' (map (\<lambda>(a, b). ''['' @ intToString a @ '','' @ intToString b @ '']'') ps) @ '']''"

text \<open>The inner function \<^verbatim>\<open>edgeKey\<close> of \<^verbatim>\<open>canonicalRotationEdges\<close>.\<close>

definition edgeKey :: "EdgeSeg list \<Rightarrow> string" where
  "edgeKey e =
     (let sorted = sortWith byOffsetThenSize e
      in stringifyPairs (map (\<lambda>seg. (size_seg seg, offset seg)) sorted))"

text \<open>\<^verbatim>\<open>[...edges.slice(k), ...edges.slice(0, k)]\<close>\<close>

definition rot :: "nat \<Rightarrow> 'a list \<Rightarrow> 'a list" where
  "rot k es = drop k es @ take k es"

text \<open>\<^verbatim>\<open>rot.map(e => edgeKey(e)).join(";")\<close> for rotation \<open>k\<close>.\<close>

definition rotKey :: "EdgeSeg list list \<Rightarrow> nat \<Rightarrow> string" where
  "rotKey es k = join '';'' (map edgeKey (rot k es))"

text \<open>
  \<^verbatim>\<open>keys.sort(); return keys[0]\<close>: the default sort compares strings by their code
  units, which is the lexicographic order of \<open>char list\<close>.
\<close>

definition canonicalRotationEdges :: "EdgeSeg list list \<Rightarrow> string" where
  "canonicalRotationEdges es =
     (let keys = map (rotKey es) [0, 1, 2, 3]
      in hd (sort keys))"

section \<open>Enumeration for center 1\<close>

definition edgeChoices :: "EdgeSeg list list" where
  "edgeChoices = [[mkSeg 2 0], [mkSeg 3 0], [mkSeg 4 0]]"

text \<open>The four nested loops, as the list of edge tuples in the order the loops visit them.\<close>

definition combinations :: "EdgeSeg list list list" where
  "combinations =
     concat (map (\<lambda>e0. concat (map (\<lambda>e1. concat (map (\<lambda>e2. map (\<lambda>e3. [e0, e1, e2, e3])
        edgeChoices) edgeChoices)) edgeChoices)) edgeChoices)"

text \<open>The body of the innermost loop, on the running \<^verbatim>\<open>seen\<close> and \<^verbatim>\<open>unique\<close>.\<close>

definition enumStep :: "EdgeSeg list list \<Rightarrow> string set \<times> Corona list
    \<Rightarrow> exn + (string set \<times> Corona list)" where
  "enumStep es st =
     (case st of (seen, unique) \<Rightarrow>
        let cor = \<lparr>center = JInt 1, edges = es\<rparr> in
        case validate cor [1, 2, 3, 4] of
          Inl e \<Rightarrow> Inl e
        | Inr r \<Rightarrow>
            if \<not> ok r then Inr (seen, unique)
            else
              let key = canonicalRotationEdges (edges cor) in
              if key \<in> seen then Inr (seen, unique)
              else Inr (insert key seen, unique @ [cor]))"

fun enumLoop :: "EdgeSeg list list list \<Rightarrow> string set \<times> Corona list
    \<Rightarrow> exn + (string set \<times> Corona list)" where
  "enumLoop [] st = Inr st"
| "enumLoop (es # rest) st =
     (case enumStep es st of Inl e \<Rightarrow> Inl e | Inr st' \<Rightarrow> enumLoop rest st')"

text \<open>\<^verbatim>\<open>enumerateUniqueCoronasCenter1()\<close>\<close>

definition enumerateUniqueCoronasCenter1 :: "exn + Corona list" where
  "enumerateUniqueCoronasCenter1 =
     (case enumLoop combinations ({}, []) of
        Inl e \<Rightarrow> Inl e
      | Inr (seen, unique) \<Rightarrow> Inr unique)"

section \<open>Compact notation\<close>

text \<open>\<^verbatim>\<open>Corona.toCompact()\<close>\<close>

definition toCompact :: "Corona \<Rightarrow> string" where
  "toCompact cor =
     join ''|'' (numToString (center cor) #
       map (\<lambda>edge.
             let edgeSorted = sortWith byOffsetThenSize edge
             in join '','' (map (\<lambda>seg. intToString (size_seg seg) @ ''^'' @ intToString (offset seg))
                  edgeSorted))
           (edges cor))"


section \<open>Parsing\<close>

text \<open>
  Strings are modelled on the code units below 256. The white space of \<^verbatim>\<open>trim\<close> and of
  \<^verbatim>\<open>\s\<close> among them: tab, line feed, vertical tab, form feed, carriage return, space and
  no-break space.
\<close>

definition isWhitespace :: "char \<Rightarrow> bool" where
  "isWhitespace ch \<longleftrightarrow>
     ch \<in> set [CHR 0x09, CHR 0x0A, CHR 0x0B, CHR 0x0C, CHR 0x0D, CHR 0x20, CHR 0xA0]"

text \<open>\<^verbatim>\<open>\d\<close>\<close>

definition isDigit :: "char \<Rightarrow> bool" where
  "isDigit ch \<longleftrightarrow> ch \<in> set ''0123456789''"

text \<open>\<^verbatim>\<open>String.prototype.trim\<close>\<close>

definition trim :: "string \<Rightarrow> string" where
  "trim s = rev (dropWhile isWhitespace (rev (dropWhile isWhitespace s)))"

text \<open>\<^verbatim>\<open>String.prototype.split(sep)\<close> for a one-character separator.\<close>

fun split :: "char \<Rightarrow> string \<Rightarrow> string list" where
  "split sep [] = [[]]"
| "split sep (ch # rest) =
     (if ch = sep then [] # split sep rest
      else let parts = split sep rest in (ch # hd parts) # tl parts)"

definition digitValue :: "char \<Rightarrow> nat" where
  "digitValue ch = of_char ch - 48"

definition digitsValue :: "string \<Rightarrow> nat" where
  "digitsValue ds = foldl (\<lambda>acc ch. 10 * acc + digitValue ch) 0 ds"

text \<open>
  \<^verbatim>\<open>parseInt(str, 10)\<close>: leading white space is skipped, a sign is read, then the longest
  run of digits; NaN when there is no digit. The result is the integer the digits
  denote. The code returns the number nearest to that integer, which is the integer
  itself up to \<^verbatim>\<open>Number.MAX_SAFE_INTEGER\<close>; beyond, the code rounds (and gives an
  infinity from about 309 digits on) and the model does not follow it: what is stated
  about a parsed value is stated for digit runs in that range, or does not depend on
  the value.
\<close>

definition parseInt :: "string \<Rightarrow> jsnum" where
  "parseInt str =
     (let t = dropWhile isWhitespace str;
          negative = (t \<noteq> [] \<and> hd t = CHR ''-'');
          u = (if t \<noteq> [] \<and> (hd t = CHR ''+'' \<or> hd t = CHR ''-'') then tl t else t);
          ds = takeWhile isDigit u
      in if ds = [] then NaN
         else JInt (if negative then - int (digitsValue ds) else int (digitsValue ds)))"

text \<open>
  \<^verbatim>\<open>tok.match(/^(\d+)\^(-?\d+)$/)\<close>: the two groups, or \<open>None\<close> for \<^verbatim>\<open>null\<close>.
\<close>

definition matchSegPat :: "string \<Rightarrow> (string \<times> string) option" where
  "matchSegPat tok =
     (let m1 = takeWhile isDigit tok in
      if m1 = [] then None
      else
        case dropWhile isDigit tok of
          [] \<Rightarrow> None
        | ch # m2 \<Rightarrow>
            if ch \<noteq> CHR ''^'' then None
            else
              let ds = (if m2 \<noteq> [] \<and> hd m2 = CHR ''-'' then tl m2 else m2)
              in if ds \<noteq> [] \<and> list_all isDigit ds then Some (m1, m2) else None)"

text \<open>
  The body of the loop over the tokens. The groups are digit strings, on which
  \<^verbatim>\<open>parseInt\<close> is an integer; the segment fields of the model hold integers only, so the
  branch for any other value is an error of its own.
\<close>

definition parseToken :: "string \<Rightarrow> exn + EdgeSeg" where
  "parseToken tok =
     (case matchSegPat tok of
        None \<Rightarrow> Inl (Error (''Bad segment token: '' @ tok))
      | Some (m1, m2) \<Rightarrow>
         (case (parseInt m1, parseInt m2) of
            (JInt s, JInt off) \<Rightarrow> Inr \<lparr>size_seg = s, offset = off\<rparr>
          | _ \<Rightarrow> Inl (Error ''segment field is not an integer'')))"

text \<open>\<^verbatim>\<open>for (const tok of edgeTxt.split(","))\<close>\<close>

fun tokenLoop :: "string list \<Rightarrow> exn + EdgeSeg list" where
  "tokenLoop [] = Inr []"
| "tokenLoop (tok # toks) =
     (case parseToken tok of
        Inl e \<Rightarrow> Inl e
      | Inr sg \<Rightarrow> (case tokenLoop toks of Inl e \<Rightarrow> Inl e | Inr segs \<Rightarrow> Inr (sg # segs)))"

text \<open>\<^verbatim>\<open>for (let i = 1; i < parts.length; i++)\<close>\<close>

fun partLoop :: "string list \<Rightarrow> exn + EdgeSeg list list" where
  "partLoop [] = Inr []"
| "partLoop (edgeTxt # rest) =
     (case tokenLoop (split CHR '','' edgeTxt) of
        Inl e \<Rightarrow> Inl e
      | Inr segs \<Rightarrow> (case partLoop rest of Inl e \<Rightarrow> Inl e | Inr es \<Rightarrow> Inr (segs # es)))"

text \<open>\<^verbatim>\<open>Corona.fromCompact(s)\<close>\<close>

definition fromCompact :: "string \<Rightarrow> exn + Corona" where
  "fromCompact s =
     (let text = filter (\<lambda>ch. \<not> isWhitespace ch) (trim s);
          parts = split CHR ''|'' text
      in if length parts \<noteq> 5 then Inl (Error ''Expected center + 4 edges'')
         else
           let c = parseInt (parts ! 0) in
           case partLoop (tl parts) of
             Inl e \<Rightarrow> Inl e
           | Inr es \<Rightarrow> Inr \<lparr>center = c, edges = es\<rparr>)"

section \<open>The corner rule in the words of the specification\<close>

text \<open>
  The last and first segment of edge \<open>i\<close> after sorting its segments by offset, the
  overhang of edge \<open>i\<close> and the size of the first segment of the cyclically next edge.
\<close>

definition lastSegment :: "Corona \<Rightarrow> nat \<Rightarrow> EdgeSeg" where
  "lastSegment cor i = last (sort_key offset (edges cor ! i))"

definition firstSegment :: "Corona \<Rightarrow> nat \<Rightarrow> EdgeSeg" where
  "firstSegment cor i = hd (sort_key offset (edges cor ! i))"

definition overhang :: "int \<Rightarrow> Corona \<Rightarrow> nat \<Rightarrow> int" where
  "overhang c cor i = offset (lastSegment cor i) + size_seg (lastSegment cor i) - c"

definition firstSegmentSize :: "Corona \<Rightarrow> nat \<Rightarrow> int" where
  "firstSegmentSize cor i = size_seg (firstSegment cor ((i + 1) mod 4))"

definition cornerGap :: "int \<Rightarrow> Corona \<Rightarrow> nat \<Rightarrow> bool" where
  "cornerGap c cor i \<longleftrightarrow> overhang c cor i = 1 \<and> firstSegmentSize cor i = 1"

section \<open>The order of the checks in the words of the specification\<close>

text \<open>Consecutive pairs of a sequence.\<close>

definition consecutive :: "'a list \<Rightarrow> ('a \<times> 'a) list" where
  "consecutive xs = zip xs (tl xs)"

text \<open>
  The checks (a) to (g) of one edge as the specification orders them, each taken over the
  whole edge: the reason of the first check that fails, \<open>None\<close> when none fails.
\<close>

definition edgeReasonInOrder :: "int \<Rightarrow> int list \<Rightarrow> EdgeSeg list \<Rightarrow> string option" where
  "edgeReasonInOrder c allowedSizes edge =
     (let segs = sort_key (\<lambda>s. (offset s, size_seg s)) edge in
      if edge = [] then Some ''edge empty''
      else if list_ex (\<lambda>s. size_seg s \<notin> set allowedSizes \<or> size_seg s \<le> 0) segs
        then Some ''invalid segment size''
      else if list_ex (\<lambda>s. offset s < 0 \<or> c < offset s) segs
        then Some ''offset out of range''
      else if list_ex (\<lambda>s. size_seg s = c \<and> offset s = 0) segs
        then Some ''not unilateral (center-sized aligned)''
      else if list_ex (\<lambda>(a, b). size_seg a = size_seg b) (consecutive segs)
        then Some ''not unilateral (equal adjacent sizes)''
      else if offset (hd segs) \<noteq> 0 then Some ''edge does not start at 0''
      else if list_ex (\<lambda>(prev, nxt). offset nxt \<noteq> offset prev + size_seg prev) (consecutive segs)
        then Some ''invalid edge walk''
      else if offset (last segs) + size_seg (last segs) < c
        then Some ''edge does not reach center length''
      else None)"

text \<open>The three checks on one segment, in the order size, offset, center-sized aligned.\<close>

definition segReason :: "int \<Rightarrow> int list \<Rightarrow> EdgeSeg \<Rightarrow> string option" where
  "segReason c allowedSizes s =
     (if size_seg s \<notin> set allowedSizes \<or> size_seg s \<le> 0 then Some ''invalid segment size''
      else if offset s < 0 \<or> c < offset s then Some ''offset out of range''
      else if size_seg s = c \<and> offset s = 0 then Some ''not unilateral (center-sized aligned)''
      else None)"

text \<open>
  The same checks with (b) and (c) taken segment by segment: the first segment of the
  sorted edge that fails one of its three checks decides.
\<close>

definition edgeReasonPerSegment :: "int \<Rightarrow> int list \<Rightarrow> EdgeSeg list \<Rightarrow> string option" where
  "edgeReasonPerSegment c allowedSizes edge =
     (let segs = sort_key (\<lambda>s. (offset s, size_seg s)) edge in
      if edge = [] then Some ''edge empty''
      else
        case find (\<lambda>s. segReason c allowedSizes s \<noteq> None) segs of
          Some s \<Rightarrow> segReason c allowedSizes s
        | None \<Rightarrow>
            if list_ex (\<lambda>(a, b). size_seg a = size_seg b) (consecutive segs)
              then Some ''not unilateral (equal adjacent sizes)''
            else if offset (hd segs) \<noteq> 0 then Some ''edge does not start at 0''
            else if list_ex (\<lambda>(prev, nxt). offset nxt \<noteq> offset prev + size_seg prev)
                      (consecutive segs)
              then Some ''invalid edge walk''
            else if offset (last segs) + size_seg (last segs) < c
              then Some ''edge does not reach center length''
            else None)"

text \<open>The reason of the first edge, in cyclic order, that has one.\<close>

fun firstReason :: "(EdgeSeg list \<Rightarrow> string option) \<Rightarrow> EdgeSeg list list \<Rightarrow> string option" where
  "firstReason edgeReason [] = None"
| "firstReason edgeReason (edge # rest) =
     (case edgeReason edge of Some r \<Rightarrow> Some r | None \<Rightarrow> firstReason edgeReason rest)"

text \<open>The corner rule (4) of the specification.\<close>

definition cornerReason :: "int \<Rightarrow> Corona \<Rightarrow> string option" where
  "cornerReason c cor =
     (if list_ex (cornerGap c cor) [0, 1, 2, 3] \<and>
         \<not> list_all (\<lambda>i. size_seg (lastSegment cor i) = size_seg (lastSegment cor 0)) [0, 1, 2, 3]
      then Some ''1x1 corner gap with asymmetric edges'' else None)"

text \<open>
  The reason of the first failing check of the whole validation, for a given account of
  the checks of one edge: center, edge count, the edges in cyclic order, the corner rule.
\<close>

definition firstFailure :: "(int \<Rightarrow> int list \<Rightarrow> EdgeSeg list \<Rightarrow> string option)
    \<Rightarrow> Corona \<Rightarrow> int list \<Rightarrow> string option" where
  "firstFailure edgeReason cor allowedSizes =
     (case center cor of
        JNonInt _ \<Rightarrow> Some ''center must be a positive integer''
      | JInt c \<Rightarrow>
          if c \<le> 0 then Some ''center must be a positive integer''
          else if length (edges cor) \<noteq> 4 then Some ''edges must have length 4''
          else
            case firstReason (edgeReason c allowedSizes) (edges cor) of
              Some r \<Rightarrow> Some r
            | None \<Rightarrow> cornerReason c cor)"

text \<open>The reason of what a loop returned, if it returned.\<close>

definition reasonOf :: "ValidationResult option \<Rightarrow> string option" where
  "reasonOf r = Option.bind r reason"

section \<open>The parser in the words of the specification\<close>

text \<open>The pattern of a segment token: digits, a caret, optionally signed digits.\<close>

definition segPattern :: "string \<Rightarrow> bool" where
  "segPattern tok \<longleftrightarrow>
     (\<exists>d1 d2. d1 \<noteq> [] \<and> list_all isDigit d1 \<and> d2 \<noteq> [] \<and> list_all isDigit d2 \<and>
        (tok = d1 @ ''^'' @ d2 \<or> tok = d1 @ ''^-'' @ d2))"

text \<open>The input without its white space, split at the bars.\<close>

definition strippedParts :: "string \<Rightarrow> string list" where
  "strippedParts s = split CHR ''|'' (filter (\<lambda>ch. \<not> isWhitespace ch) s)"

section \<open>The round trip in the words of the specification\<close>

text \<open>
  Well-formed segment data: a positive integer center, four non-empty edges, positive
  sizes.
\<close>

definition wellFormed :: "Corona \<Rightarrow> bool" where
  "wellFormed cor \<longleftrightarrow>
     (case center cor of JInt n \<Rightarrow> 0 < n | JNonInt _ \<Rightarrow> False) \<and>
     length (edges cor) = 4 \<and>
     list_all (\<lambda>e. e \<noteq> [] \<and> list_all (\<lambda>s. 0 < size_seg s) e) (edges cor)"

text \<open>
  What the parser can return: an integer or NaN center, four non-empty edges, sizes
  that are not negative.
\<close>

definition parseable :: "Corona \<Rightarrow> bool" where
  "parseable cor \<longleftrightarrow>
     (case center cor of JInt n \<Rightarrow> True | JNonInt t \<Rightarrow> t = ''NaN'') \<and>
     length (edges cor) = 4 \<and>
     list_all (\<lambda>e. e \<noteq> [] \<and> list_all (\<lambda>s. 0 \<le> size_seg s) e) (edges cor)"

text \<open>
  \<^verbatim>\<open>Number.MAX_SAFE_INTEGER\<close>, which is \<open>2 ^ 53 - 1\<close>, and the integers up to it in absolute
  value: the numbers the code holds, prints digit by digit and parses back exactly.
\<close>

definition maxSafeInteger :: int where
  "maxSafeInteger = 9007199254740991"

definition safeInt :: "int \<Rightarrow> bool" where
  "safeInt n \<longleftrightarrow> - maxSafeInteger \<le> n \<and> n \<le> maxSafeInteger"

text \<open>Every number of the Corona is in that range (a center that is not an integer aside).\<close>

definition safeNumbers :: "Corona \<Rightarrow> bool" where
  "safeNumbers cor \<longleftrightarrow>
     (case center cor of JInt n \<Rightarrow> safeInt n | JNonInt _ \<Rightarrow> True) \<and>
     list_all (list_all (\<lambda>s. safeInt (size_seg s) \<and> safeInt (offset s))) (edges cor)"

text \<open>Every edge is sorted by (offset, size) ascending.\<close>

definition edgesSorted :: "Corona \<Rightarrow> bool" where
  "edgesSorted cor \<longleftrightarrow>
     list_all (\<lambda>e. sorted (map (\<lambda>s. (offset s, size_seg s)) e)) (edges cor)"

text \<open>The Corona with every edge sorted by (offset, size) ascending.\<close>

definition sortEdges :: "Corona \<Rightarrow> Corona" where
  "sortEdges cor = cor\<lparr>edges := map (sort_key (\<lambda>s. (offset s, size_seg s))) (edges cor)\<rparr>"

text \<open>The token \<^verbatim>\<open>`${seg.size}^${seg.offset}`\<close> of a segment.\<close>

definition tokenOf :: "EdgeSeg \<Rightarrow> string" where
  "tokenOf sg = intToString (size_seg sg) @ ''^'' @ intToString (offset sg)"

text \<open>The text of an edge: the tokens of its segments, sorted, joined by commas.\<close>

definition edgeText :: "EdgeSeg list \<Rightarrow> string" where
  "edgeText e = join '','' (map tokenOf (sort_key (\<lambda>s. (offset s, size_seg s)) e))"

section \<open>The enumeration in the words of the specification\<close>

text \<open>
  The elements of a list that are the first with their key, in the order of the list:
  keep the head, drop everything after it that has the head's key, go on.
\<close>

function firstOccurrences :: "('a \<Rightarrow> 'k) \<Rightarrow> 'a list \<Rightarrow> 'a list" where
  "firstOccurrences key [] = []"
| "firstOccurrences key (x # xs) = x # firstOccurrences key (filter (\<lambda>y. key y \<noteq> key x) xs)"
  by pat_completeness auto
termination
  by (relation "measure (\<lambda>(key, xs). length xs)") (auto simp: less_Suc_eq_le)

text \<open>The Corona the innermost loop builds from a tuple of edges.\<close>

definition coronaOf :: "EdgeSeg list list \<Rightarrow> Corona" where
  "coronaOf es = \<lparr>center = JInt 1, edges = es\<rparr>"

text \<open>Whether the tuple passes \<^verbatim>\<open>cor.validate(allowedSizes).ok\<close>.\<close>

definition passes :: "EdgeSeg list list \<Rightarrow> bool" where
  "passes es = (case validate (coronaOf es) [1, 2, 3, 4] of Inr r \<Rightarrow> ok r | Inl e \<Rightarrow> False)"

text \<open>The 24 tuples of sizes the enumeration returns, in order.\<close>

definition expectedSizes :: "int list list" where
  "expectedSizes =
    [[2,2,2,2],[2,2,2,3],[2,2,2,4],[2,2,3,3],[2,2,3,4],[2,2,4,3],[2,2,4,4],[2,3,2,3],[2,3,2,4],
     [2,3,3,3],[2,3,3,4],[2,3,4,3],[2,3,4,4],[2,4,2,4],[2,4,3,3],[2,4,3,4],[2,4,4,3],[2,4,4,4],
     [3,3,3,3],[3,3,3,4],[3,3,4,4],[3,4,3,4],[3,4,4,4],[4,4,4,4]]"

definition expectedCoronas :: "Corona list" where
  "expectedCoronas = map (\<lambda>sizes. coronaOf (map (\<lambda>s. [mkSeg s 0]) sizes)) expectedSizes"

section \<open>Arrays in a store\<close>

text \<open>
  Arrays are objects: the edges of a Corona may be one array referenced several times
  (the enumeration builds its Coronas from three shared edge arrays), and
  \<^verbatim>\<open>Array.prototype.sort\<close> sorts in place. The store is the list of the arrays
  allocated so far, a reference is an index into it. Segments are never assigned to, so
  an array of segments holds their values. Arrays of strings and numbers that a function
  creates itself stay values.
\<close>

datatype cell = SegArray "EdgeSeg list" | EdgeArray "nat list"

type_synonym store = "cell list"

text \<open>A Corona object: the field \<^verbatim>\<open>center\<close> and the reference in the field \<^verbatim>\<open>edges\<close>.\<close>

record CoronaObj =
  centerField :: jsnum
  edgesField :: nat

text \<open>Reading an array of segments, and an array of edges.\<close>

definition segsOf :: "store \<Rightarrow> nat \<Rightarrow> EdgeSeg list" where
  "segsOf h r =
     (if r < length h then (case h ! r of SegArray segs \<Rightarrow> segs | EdgeArray _ \<Rightarrow> []) else [])"

definition refsOf :: "store \<Rightarrow> nat \<Rightarrow> nat list" where
  "refsOf h r =
     (if r < length h then (case h ! r of EdgeArray refs \<Rightarrow> refs | SegArray _ \<Rightarrow> []) else [])"

text \<open>A new array: its reference and the store with it.\<close>

definition alloc :: "store \<Rightarrow> cell \<Rightarrow> nat \<times> store" where
  "alloc h c = (length h, h @ [c])"

text \<open>\<^verbatim>\<open>arr.sort(cmp)\<close>: the array at \<open>r\<close> is sorted in place.\<close>

definition sortInPlace :: "(EdgeSeg \<Rightarrow> EdgeSeg \<Rightarrow> int) \<Rightarrow> store \<Rightarrow> nat \<Rightarrow> store" where
  "sortInPlace cmp h r =
     (if r < length h then h[r := SegArray (sortWith cmp (segsOf h r))] else h)"

text \<open>\<^verbatim>\<open>[...e].sort(cmp)\<close>: a new array with the elements of \<open>e\<close>, then sorted in place.\<close>

definition sortedCopy :: "(EdgeSeg \<Rightarrow> EdgeSeg \<Rightarrow> int) \<Rightarrow> store \<Rightarrow> nat \<Rightarrow> nat \<times> store" where
  "sortedCopy cmp h e =
     (case alloc h (SegArray (segsOf h e)) of
        (copy, h1) \<Rightarrow> (copy, sortInPlace cmp h1 copy))"

text \<open>The Corona value a Corona object stands for in a store.\<close>

definition coronaIn :: "store \<Rightarrow> CoronaObj \<Rightarrow> Corona" where
  "coronaIn h obj =
     \<lparr>center = centerField obj, edges = map (segsOf h) (refsOf h (edgesField obj))\<rparr>"

text \<open>The references of the object point into the store.\<close>

definition inStore :: "store \<Rightarrow> CoronaObj \<Rightarrow> bool" where
  "inStore h obj \<longleftrightarrow>
     edgesField obj < length h \<and> list_all (\<lambda>r. r < length h) (refsOf h (edgesField obj))"

text \<open>The body of the loop over the edges of \<open>validate\<close>, on the store.\<close>

definition checkEdgeS :: "int \<Rightarrow> int list \<Rightarrow> nat \<Rightarrow> store \<Rightarrow> nat
    \<Rightarrow> (exn + ValidationResult option) \<times> store" where
  "checkEdgeS c allowedSizes ei h edge =
     (if length (segsOf h edge) = 0
        then (Inr (Some (failure ''edge empty'' (Some (AtEdge ei)))), h)
      else
        case sortedCopy byOffsetThenSize h edge of
          (segs, h') \<Rightarrow> (checkSorted c allowedSizes ei (segsOf h' segs), h'))"

fun edgeLoopS :: "int \<Rightarrow> int list \<Rightarrow> nat \<Rightarrow> store \<Rightarrow> nat list
    \<Rightarrow> (exn + ValidationResult option) \<times> store" where
  "edgeLoopS c allowedSizes ei h [] = (Inr None, h)"
| "edgeLoopS c allowedSizes ei h (edge # rest) =
     (case checkEdgeS c allowedSizes ei h edge of
        (Inl e, h') \<Rightarrow> (Inl e, h')
      | (Inr (Some r), h') \<Rightarrow> (Inr (Some r), h')
      | (Inr None, h') \<Rightarrow> edgeLoopS c allowedSizes (Suc ei) h' rest)"

text \<open>\<^verbatim>\<open>this.edges[i]\<close> on the array of references.\<close>

definition refAt :: "nat list \<Rightarrow> nat \<Rightarrow> nat option" where
  "refAt es i = (if i < length es then Some (es ! i) else None)"

text \<open>One round of the corner loop, on the store.\<close>

definition cornerStepS :: "int \<Rightarrow> store \<Rightarrow> nat list \<Rightarrow> nat \<Rightarrow> (exn + (bool \<times> int)) \<times> store" where
  "cornerStepS c h es ei =
     (case refAt es ei of
        None \<Rightarrow> (Inl TypeError, h)
      | Some edge \<Rightarrow>
         (case refAt es ((ei + 1) mod 4) of
            None \<Rightarrow> (Inl TypeError, h)
          | Some nextEdge \<Rightarrow>
             (case sortedCopy byOffset h edge of
                (segs, h1) \<Rightarrow>
                 (case sortedCopy byOffset h1 nextEdge of
                    (nextSegs, h2) \<Rightarrow>
                      (cornerOfSorted c (segsOf h2 segs) (segsOf h2 nextSegs), h2)))))"

fun cornerLoopS :: "int \<Rightarrow> store \<Rightarrow> nat list \<Rightarrow> nat list \<Rightarrow> bool \<Rightarrow> int list
    \<Rightarrow> (exn + (bool \<times> int list)) \<times> store" where
  "cornerLoopS c h es [] hasCornerGap lastSegSizes = (Inr (hasCornerGap, lastSegSizes), h)"
| "cornerLoopS c h es (ei # eis) hasCornerGap lastSegSizes =
     (case cornerStepS c h es ei of
        (Inl e, h') \<Rightarrow> (Inl e, h')
      | (Inr (gap, s), h') \<Rightarrow>
          cornerLoopS c h' es eis (hasCornerGap \<or> gap) (lastSegSizes @ [s]))"

text \<open>\<^verbatim>\<open>Corona.validate(allowedSizes)\<close> on a Corona object in a store.\<close>

definition validateS :: "store \<Rightarrow> CoronaObj \<Rightarrow> int list \<Rightarrow> (exn + ValidationResult) \<times> store" where
  "validateS h obj allowedSizes =
     (case centerField obj of
        JNonInt _ \<Rightarrow> (Inr (failure ''center must be a positive integer'' None), h)
      | JInt c \<Rightarrow>
          if c \<le> 0 then (Inr (failure ''center must be a positive integer'' None), h)
          else
            let es = refsOf h (edgesField obj) in
            if length es \<noteq> 4 then (Inr (failure ''edges must have length 4'' None), h)
            else
              (case edgeLoopS c allowedSizes 0 h es of
                 (Inl e, h1) \<Rightarrow> (Inl e, h1)
               | (Inr (Some r), h1) \<Rightarrow> (Inr r, h1)
               | (Inr None, h1) \<Rightarrow>
                  (case cornerLoopS c h1 es [0, 1, 2, 3] False [] of
                     (Inl e, h2) \<Rightarrow> (Inl e, h2)
                   | (Inr (hasCornerGap, lastSegSizes), h2) \<Rightarrow>
                       if hasCornerGap \<and> \<not> allSame lastSegSizes
                         then (Inr (failure ''1x1 corner gap with asymmetric edges''
                                      (Some (AtSizes lastSegSizes))), h2)
                       else (Inr success, h2))))"

text \<open>The inner function \<^verbatim>\<open>edgeKey\<close>, on the store.\<close>

definition edgeKeyS :: "store \<Rightarrow> nat \<Rightarrow> string \<times> store" where
  "edgeKeyS h e =
     (case sortedCopy byOffsetThenSize h e of
        (sortedRef, h') \<Rightarrow>
          (stringifyPairs (map (\<lambda>seg. (size_seg seg, offset seg)) (segsOf h' sortedRef)), h'))"

text \<open>\<^verbatim>\<open>rot.map(e => edgeKey(e))\<close>\<close>

fun mapEdgeKeyS :: "store \<Rightarrow> nat list \<Rightarrow> string list \<times> store" where
  "mapEdgeKeyS h [] = ([], h)"
| "mapEdgeKeyS h (e # es) =
     (case edgeKeyS h e of
        (k, h1) \<Rightarrow> (case mapEdgeKeyS h1 es of (ks, h2) \<Rightarrow> (k # ks, h2)))"

text \<open>
  One round of the loop over \<open>k\<close>: the two slices and their concatenation are new
  arrays of references; the round returns its key.
\<close>

definition rotKeyS :: "store \<Rightarrow> nat \<Rightarrow> nat \<Rightarrow> string \<times> store" where
  "rotKeyS h edgesRef k =
     (case alloc h (EdgeArray (drop k (refsOf h edgesRef))) of
        (a, h1) \<Rightarrow>
         (case alloc h1 (EdgeArray (take k (refsOf h1 edgesRef))) of
            (b, h2) \<Rightarrow>
             (case alloc h2 (EdgeArray (refsOf h2 a @ refsOf h2 b)) of
                (rotRef, h3) \<Rightarrow>
                 (case mapEdgeKeyS h3 (refsOf h3 rotRef) of
                    (ks, h4) \<Rightarrow> (join '';'' ks, h4)))))"

fun keysLoopS :: "store \<Rightarrow> nat \<Rightarrow> nat list \<Rightarrow> string list \<Rightarrow> string list \<times> store" where
  "keysLoopS h edgesRef [] keys = (keys, h)"
| "keysLoopS h edgesRef (k # ks) keys =
     (case rotKeyS h edgesRef k of
        (key, h') \<Rightarrow> keysLoopS h' edgesRef ks (keys @ [key]))"

text \<open>\<^verbatim>\<open>canonicalRotationEdges(edges)\<close> on the reference of an array of edges.\<close>

definition canonicalRotationEdgesS :: "store \<Rightarrow> nat \<Rightarrow> string \<times> store" where
  "canonicalRotationEdgesS h edgesRef =
     (case keysLoopS h edgesRef [0, 1, 2, 3] [] of
        (keys, h') \<Rightarrow> (hd (sort keys), h'))"

text \<open>The store \<open>h'\<close> holds every array of \<open>h\<close> unchanged, and possibly new ones.\<close>

definition unchanged :: "store \<Rightarrow> store \<Rightarrow> bool" where
  "unchanged h h' \<longleftrightarrow> take (length h) h' = h"

section \<open>Facts about sorting and the loops\<close>

lemma insertWith_byOffsetThenSize:
  "insertWith byOffsetThenSize x ys = insort_key (\<lambda>s. (offset s, size_seg s)) x ys"
  by (induction ys) (auto simp: byOffsetThenSize_def less_eq_prod_def)

lemma sortWith_byOffsetThenSize:
  "sortWith byOffsetThenSize xs = sort_key (\<lambda>s. (offset s, size_seg s)) xs"
  unfolding sortWith_def sort_key_def
  by (induction xs) (simp_all add: insertWith_byOffsetThenSize)

lemma insertWith_byOffset: "insertWith byOffset x ys = insort_key offset x ys"
  by (induction ys) (auto simp: byOffset_def)

lemma sortWith_byOffset: "sortWith byOffset xs = sort_key offset xs"
  unfolding sortWith_def sort_key_def
  by (induction xs) (simp_all add: insertWith_byOffset)

lemma mset_insertWith: "mset (insertWith cmp x ys) = add_mset x (mset ys)"
  by (induction ys) simp_all

lemma mset_sortWith: "mset (sortWith cmp xs) = mset xs"
  unfolding sortWith_def by (induction xs) (simp_all add: mset_insertWith)

lemma length_sortWith: "length (sortWith cmp xs) = length xs"
  using mset_sortWith [of cmp xs] by (metis size_mset)

lemma sortWith_Nil_iff: "sortWith cmp xs = [] \<longleftrightarrow> xs = []"
  using length_sortWith [of cmp xs] by (metis length_0_conv)

lemma set_sortWith: "set (sortWith cmp xs) = set xs"
  using mset_sortWith [of cmp xs] by (metis set_mset_mset)

lemma checkEdge_no_raise: "\<exists>r. checkEdge c a ei edge = Inr r"
  by (cases "sortWith byOffsetThenSize edge")
     (auto simp: checkEdge_def checkSorted_def Let_def sortWith_Nil_iff split: option.splits)

lemma edgeLoop_no_raise: "\<exists>r. edgeLoop c a ei es = Inr r"
proof (induction es arbitrary: ei)
  case Nil
  show ?case by simp
next
  case (Cons e es)
  obtain r where r: "checkEdge c a ei e = Inr r"
    using checkEdge_no_raise by blast
  show ?case
  proof (cases r)
    case None
    with r Cons show ?thesis by simp
  next
    case (Some v)
    with r show ?thesis by simp
  qed
qed

lemma checkEdge_pass_nonempty: "checkEdge c a ei edge = Inr None \<Longrightarrow> edge \<noteq> []"
  by (auto simp: checkEdge_def checkSorted_def)

lemma edgeLoop_pass_all:
  "edgeLoop c a ei es = Inr None \<Longrightarrow> i < length es \<Longrightarrow> checkEdge c a (ei + i) (es ! i) = Inr None"
proof (induction es arbitrary: ei i)
  case Nil
  then show ?case by simp
next
  case (Cons e es)
  from Cons.prems(1) have e: "checkEdge c a ei e = Inr None"
    by (auto split: sum.splits option.splits)
  with Cons.prems(1) have rest: "edgeLoop c a (Suc ei) es = Inr None"
    by simp
  show ?case
  proof (cases i)
    case 0
    with e show ?thesis by simp
  next
    case (Suc j)
    with Cons.prems(2) have "j < length es" by simp
    from Cons.IH [OF rest this] Suc show ?thesis by simp
  qed
qed

lemma cornerStep_no_raise:
  assumes "length es = 4" "ei < 4" "\<forall>i<4. es ! i \<noteq> []"
  shows "\<exists>g s. cornerStep c es ei = Inr (g, s)"
proof -
  have n: "(ei + 1) mod 4 < 4" by simp
  from assms have "es ! ei \<noteq> []" by blast
  moreover from assms(3) n have "es ! ((ei + 1) mod 4) \<noteq> []" by blast
  ultimately show ?thesis
    using assms(1,2) by (simp add: cornerStep_def cornerOfSorted_def edgeAt_def Let_def sortWith_Nil_iff)
qed

lemma cornerLoop_no_raise:
  assumes "length es = 4" "\<forall>i<4. es ! i \<noteq> []" "\<forall>ei\<in>set eis. ei < 4"
  shows "\<exists>r. cornerLoop c es eis gap sizes = Inr r"
  using assms(3)
proof (induction eis arbitrary: gap sizes)
  case Nil
  show ?case by simp
next
  case (Cons ei eis)
  then have "ei < 4" by simp
  from cornerStep_no_raise [OF assms(1) this assms(2)]
  obtain g s where "cornerStep c es ei = Inr (g, s)" by blast
  with Cons show ?case by simp
qed

section \<open>Validation never throws\<close>

lemma validate_returns: "\<exists>r. validate cor a = Inr r"
proof (cases "center cor")
  case (JNonInt t)
  then show ?thesis by (simp add: validate_def)
next
  case (JInt c)
  show ?thesis
  proof (cases "c \<le> 0 \<or> length (edges cor) \<noteq> 4")
    case True
    with JInt show ?thesis by (auto simp: validate_def)
  next
    case False
    then have c: "0 < c" and len: "length (edges cor) = 4" by auto
    obtain r where r: "edgeLoop c a 0 (edges cor) = Inr r"
      using edgeLoop_no_raise by blast
    show ?thesis
    proof (cases r)
      case (Some v)
      with r JInt c len show ?thesis by (simp add: validate_def)
    next
      case None
      have ne: "\<forall>i<4. edges cor ! i \<noteq> []"
      proof (intro allI impI)
        fix i :: nat assume "i < 4"
        with len have "i < length (edges cor)" by simp
        from edgeLoop_pass_all [OF r [unfolded None] this]
        show "edges cor ! i \<noteq> []" by (rule checkEdge_pass_nonempty)
      qed
      have "\<forall>ei\<in>set [0, 1, 2, 3::nat]. ei < 4" by simp
      from cornerLoop_no_raise [OF len ne this]
      obtain q where "cornerLoop c (edges cor) [0, 1, 2, 3] False [] = Inr q" by blast
      with r None JInt c len show ?thesis
        by (cases q) (simp add: validate_def)
    qed
  qed
qed

text \<open>
  Claim C9. For every Corona (any center, any number of edges, empty edges included) and
  any allowed sizes, \<open>validate\<close> returns a validation result and throws nothing; and
  whenever the corner loop is reached (positive integer center, four edges, the loop
  over the edges fell through) every round of it finds the first and last segments it
  reads.
\<close>

theorem validate_never_raises:
  "(\<exists>r. validate cor allowedSizes = Inr r) \<and>
   (\<forall>c. center cor = JInt c \<and> 0 < c \<and> length (edges cor) = 4 \<and>
        edgeLoop c allowedSizes 0 (edges cor) = Inr None \<longrightarrow>
        (\<forall>ei<4. \<exists>gap s. cornerStep c (edges cor) ei = Inr (gap, s)))"
proof (intro conjI allI impI)
  show "\<exists>r. validate cor allowedSizes = Inr r"
    by (rule validate_returns)
next
  fix c :: int and ei :: nat
  assume h: "center cor = JInt c \<and> 0 < c \<and> length (edges cor) = 4 \<and>
        edgeLoop c allowedSizes 0 (edges cor) = Inr None"
    and ei: "ei < 4"
  from h have len: "length (edges cor) = 4"
    and pass: "edgeLoop c allowedSizes 0 (edges cor) = Inr None" by simp_all
  have ne: "\<forall>i<4. edges cor ! i \<noteq> []"
  proof (intro allI impI)
    fix i :: nat assume "i < 4"
    with len have "i < length (edges cor)" by simp
    from edgeLoop_pass_all [OF pass this]
    show "edges cor ! i \<noteq> []" by (rule checkEdge_pass_nonempty)
  qed
  from cornerStep_no_raise [OF len ei ne]
  show "\<exists>gap s. cornerStep c (edges cor) ei = Inr (gap, s)" .
qed

theorem validate_never_raises_witness:
  "(\<exists>r. validate \<lparr>center = JInt 2, edges = [[mkSeg 3 0], [mkSeg 3 0], [mkSeg 3 0], [mkSeg 3 0]]\<rparr>
          defaultSizes = Inr r) \<and>
   edgeLoop 2 defaultSizes 0 [[mkSeg 3 0], [mkSeg 3 0], [mkSeg 3 0], [mkSeg 3 0]] = Inr None \<and>
   (\<exists>gap s. cornerStep 2 [[mkSeg 3 0], [mkSeg 3 0], [mkSeg 3 0], [mkSeg 3 0]] 3 = Inr (gap, s))"
proof -
  let ?es = "[[mkSeg 3 0], [mkSeg 3 0], [mkSeg 3 0], [mkSeg 3 0]]"
  let ?cor = "\<lparr>center = JInt 2, edges = ?es\<rparr>"
  have pass: "edgeLoop 2 defaultSizes 0 ?es = Inr None"
    by (simp add: checkEdge_def checkSorted_def sortWith_def mkSeg_def defaultSizes_def)
  have h: "center ?cor = JInt 2 \<and> (0::int) < 2 \<and> length (edges ?cor) = 4 \<and>
        edgeLoop 2 defaultSizes 0 (edges ?cor) = Inr None"
    using pass by simp
  from validate_never_raises [of ?cor defaultSizes] h
  have "(\<exists>r. validate ?cor defaultSizes = Inr r) \<and>
        (\<forall>ei<4. \<exists>gap s. cornerStep 2 (edges ?cor) ei = Inr (gap, s))"
    by blast
  with pass show ?thesis by simp
qed

section \<open>The corner-gap rule\<close>

lemma sort_key_Nil_iff: "sort_key f xs = [] \<longleftrightarrow> xs = []"
  using length_sort [of f xs] by (metis length_0_conv)

lemma cornerStep_eq:
  assumes "edges cor = es" "length es = 4" "ei < 4" "\<forall>i<4. es ! i \<noteq> []"
  shows "cornerStep c es ei = Inr (cornerGap c cor ei, size_seg (lastSegment cor ei))"
proof -
  have n: "(ei + 1) mod 4 < 4" by simp
  from assms have "es ! ei \<noteq> []" by blast
  moreover from assms(4) n have "es ! ((ei + 1) mod 4) \<noteq> []" by blast
  ultimately show ?thesis
    using assms(1,2,3)
    by (simp add: cornerStep_def cornerOfSorted_def edgeAt_def Let_def sort_key_Nil_iff sortWith_byOffset
        cornerGap_def overhang_def firstSegmentSize_def lastSegment_def firstSegment_def)
qed

lemma all_less_4: "(\<forall>i<4::nat. P i) \<longleftrightarrow> P 0 \<and> P 1 \<and> P 2 \<and> P 3"
proof -
  have "i < 4 \<longleftrightarrow> i = 0 \<or> i = 1 \<or> i = 2 \<or> i = 3" for i :: nat by arith
  then show ?thesis by auto
qed

lemma ex_less_4: "(\<exists>i<4::nat. P i) \<longleftrightarrow> P 0 \<or> P 1 \<or> P 2 \<or> P 3"
  using all_less_4 [of "\<lambda>i. \<not> P i"] by blast

lemma edgeLoop_four:
  assumes "\<forall>i<4. checkEdge c a i (es ! i) = Inr None" "length es = 4"
  shows "edgeLoop c a 0 es = Inr None"
proof -
  from assms(2) obtain e0 e1 e2 e3 where es: "es = [e0, e1, e2, e3]"
    by (auto simp: length_Suc_conv numeral_eq_Suc)
  from assms(1) have "checkEdge c a 0 e0 = Inr None" "checkEdge c a (Suc 0) e1 = Inr None"
    "checkEdge c a (Suc (Suc 0)) e2 = Inr None" "checkEdge c a (Suc (Suc (Suc 0))) e3 = Inr None"
    unfolding all_less_4 es by (simp_all add: numeral_eq_Suc)
  then show ?thesis by (simp add: es)
qed

lemma checkEdge_walk12 [simp]:
  "checkEdge 2 defaultSizes i [mkSeg 1 0, mkSeg 2 1] = Inr None"
  by (simp add: checkEdge_def checkSorted_def sortWith_def mkSeg_def defaultSizes_def byOffsetThenSize_def)

lemma checkEdge_walk14 [simp]:
  "checkEdge 2 defaultSizes i [mkSeg 1 0, mkSeg 4 1] = Inr None"
  by (simp add: checkEdge_def checkSorted_def sortWith_def mkSeg_def defaultSizes_def byOffsetThenSize_def)

lemma validate_after_edges:
  assumes "center cor = JInt c" "0 < c" "length (edges cor) = 4"
    and pass: "edgeLoop c allowedSizes 0 (edges cor) = Inr None"
  shows "validate cor allowedSizes =
     Inr (if (\<exists>i<4. cornerGap c cor i) \<and>
             \<not> (\<forall>i<4. \<forall>j<4. size_seg (lastSegment cor i) = size_seg (lastSegment cor j))
          then failure ''1x1 corner gap with asymmetric edges''
                 (Some (AtSizes (map (\<lambda>i. size_seg (lastSegment cor i)) [0, 1, 2, 3])))
          else success)"
proof -
  have ne: "\<forall>i<4. edges cor ! i \<noteq> []"
  proof (intro allI impI)
    fix i :: nat assume "i < 4"
    with assms(3) have "i < length (edges cor)" by simp
    from edgeLoop_pass_all [OF pass this]
    show "edges cor ! i \<noteq> []" by (rule checkEdge_pass_nonempty)
  qed
  have step: "cornerStep c (edges cor) ei =
      Inr (cornerGap c cor ei, size_seg (lastSegment cor ei))" if "ei < 4" for ei
    using cornerStep_eq [OF refl assms(3) that ne] .
  have loop: "cornerLoop c (edges cor) [0, 1, 2, 3] False [] =
      Inr (cornerGap c cor 0 \<or> cornerGap c cor 1 \<or> cornerGap c cor 2 \<or> cornerGap c cor 3,
           map (\<lambda>i. size_seg (lastSegment cor i)) [0, 1, 2, 3])"
    by (simp add: step)
  have same: "allSame (map (\<lambda>i. size_seg (lastSegment cor i)) [0, 1, 2, 3]) \<longleftrightarrow>
      (\<forall>i<4. \<forall>j<4. size_seg (lastSegment cor i) = size_seg (lastSegment cor j))"
    unfolding all_less_4 allSame_def by auto
  show ?thesis
    using assms(1,2,3) pass loop same
    by (simp add: validate_def ex_less_4 del: map_eq_conv list.map)
qed

text \<open>
  Claim C1. Let the center be a positive integer \<open>c\<close>, let there be four edges and let
  each edge pass the checks of the loop over the edges. With the overhang of edge \<open>i\<close>
  and the size of the first segment of edge \<open>(i + 1) mod 4\<close> taken after sorting by
  offset: if some corner has overhang 1 and first segment size 1, and the four last
  segment sizes are not all identical, \<open>validate\<close> returns the failure with reason
  "1x1 corner gap with asymmetric edges"; otherwise it returns success.
\<close>

theorem corner_gap_rule:
  assumes "center cor = JInt c" "0 < c" "length (edges cor) = 4"
    and "\<forall>i<4. checkEdge c allowedSizes i (edges cor ! i) = Inr None"
  shows "validate cor allowedSizes =
     Inr (if (\<exists>i<4. cornerGap c cor i) \<and>
             \<not> (\<forall>i<4. \<forall>j<4. size_seg (lastSegment cor i) = size_seg (lastSegment cor j))
          then failure ''1x1 corner gap with asymmetric edges''
                 (Some (AtSizes (map (\<lambda>i. size_seg (lastSegment cor i)) [0, 1, 2, 3])))
          else success)"
proof -
  have "edgeLoop c allowedSizes 0 (edges cor) = Inr None"
    using assms(4,3) by (rule edgeLoop_four)
  with assms(1,2,3) show ?thesis by (rule validate_after_edges)
qed

theorem corner_gap_rule_witness:
  "validate \<lparr>center = JInt 2, edges = [[mkSeg 1 0, mkSeg 2 1], [mkSeg 1 0, mkSeg 2 1],
       [mkSeg 1 0, mkSeg 4 1], [mkSeg 1 0, mkSeg 4 1]]\<rparr> defaultSizes =
     Inr (failure ''1x1 corner gap with asymmetric edges'' (Some (AtSizes [2, 2, 4, 4]))) \<and>
   validate \<lparr>center = JInt 2, edges = [[mkSeg 1 0, mkSeg 2 1], [mkSeg 1 0, mkSeg 2 1],
       [mkSeg 1 0, mkSeg 2 1], [mkSeg 1 0, mkSeg 2 1]]\<rparr> defaultSizes = Inr success"
proof -
  let ?a = "\<lparr>center = JInt 2, edges = [[mkSeg 1 0, mkSeg 2 1], [mkSeg 1 0, mkSeg 2 1],
       [mkSeg 1 0, mkSeg 4 1], [mkSeg 1 0, mkSeg 4 1]]\<rparr>"
  let ?s = "\<lparr>center = JInt 2, edges = [[mkSeg 1 0, mkSeg 2 1], [mkSeg 1 0, mkSeg 2 1],
       [mkSeg 1 0, mkSeg 2 1], [mkSeg 1 0, mkSeg 2 1]]\<rparr>"
  have a: "\<forall>i<4. checkEdge 2 defaultSizes i (edges ?a ! i) = Inr None"
    unfolding all_less_4 by simp
  have s: "\<forall>i<4. checkEdge 2 defaultSizes i (edges ?s ! i) = Inr None"
    unfolding all_less_4 by simp
  have "validate ?a defaultSizes =
      Inr (failure ''1x1 corner gap with asymmetric edges'' (Some (AtSizes [2, 2, 4, 4])))"
    using corner_gap_rule [of ?a 2 defaultSizes, OF _ _ _ a]
    by (simp add: all_less_4 ex_less_4 cornerGap_def overhang_def firstSegmentSize_def
        lastSegment_def firstSegment_def mkSeg_def)
  moreover have "validate ?s defaultSizes = Inr success"
    using corner_gap_rule [of ?s 2 defaultSizes, OF _ _ _ s]
    by (simp add: all_less_4 ex_less_4 cornerGap_def overhang_def firstSegmentSize_def
        lastSegment_def firstSegment_def mkSeg_def)
  ultimately show ?thesis by simp
qed

section \<open>Canonical rotation\<close>

lemma sort_mset_cong: "mset xs = mset ys \<Longrightarrow> sort xs = sort ys"
  by (metis mset_sort properties_for_sort sorted_sort)

lemma rot_rot4:
  assumes "length es = 4" "j < 4"
  shows "mset (map (rotKey (rot j es)) [0, 1, 2, 3]) = mset (map (rotKey es) [0, 1, 2, 3])"
proof -
  from assms(1) obtain a b c d where es: "es = [a, b, c, d]"
    by (auto simp: length_Suc_conv numeral_eq_Suc)
  from assms(2) have "j = 0 \<or> j = 1 \<or> j = 2 \<or> j = 3" by arith
  then show ?thesis
    by (elim disjE) (simp_all add: es rotKey_def rot_def)
qed

lemma rotate_is_rot: "length es = 4 \<Longrightarrow> rotate k es = rot (k mod 4) es"
  by (simp add: rotate_drop_take rot_def)

lemma canonical_rot:
  assumes "length es = 4"
  shows "canonicalRotationEdges (rotate k es) = canonicalRotationEdges es"
proof -
  have "k mod 4 < 4" by simp
  from rot_rot4 [OF assms this]
  have "sort (map (rotKey (rot (k mod 4) es)) [0, 1, 2, 3]) = sort (map (rotKey es) [0, 1, 2, 3])"
    by (rule sort_mset_cong)
  then show ?thesis
    by (simp add: canonicalRotationEdges_def rotate_is_rot [OF assms] del: list.map)
qed

text \<open>
  Claim C3. For every tuple of four edges and every \<open>k\<close>, the canonical key of the tuple
  rotated cyclically by \<open>k\<close> is the canonical key of the tuple. So once the key of a
  tuple has been seen, the enumeration step on any rotation of the tuple keeps nothing:
  it returns \<^verbatim>\<open>seen\<close> and \<^verbatim>\<open>unique\<close> as they were.
\<close>

theorem canonical_rotation_invariant:
  assumes "length es = 4"
  shows "canonicalRotationEdges (rotate k es) = canonicalRotationEdges es \<and>
    (canonicalRotationEdges es \<in> seen \<longrightarrow>
       enumStep (rotate k es) (seen, unique) = Inr (seen, unique))"
proof -
  have key: "canonicalRotationEdges (rotate k es) = canonicalRotationEdges es"
    using assms by (rule canonical_rot)
  obtain r where "validate \<lparr>center = JInt 1, edges = rotate k es\<rparr> [1, 2, 3, 4] = Inr r"
    using validate_returns by blast
  then show ?thesis
    using key by (simp add: enumStep_def Let_def)
qed

theorem canonical_rotation_invariant_witness:
  "canonicalRotationEdges [[mkSeg 3 0], [mkSeg 4 0], [mkSeg 2 0], [mkSeg 2 0]] =
     canonicalRotationEdges [[mkSeg 2 0], [mkSeg 2 0], [mkSeg 3 0], [mkSeg 4 0]] \<and>
   enumStep [[mkSeg 3 0], [mkSeg 4 0], [mkSeg 2 0], [mkSeg 2 0]]
     ({canonicalRotationEdges [[mkSeg 2 0], [mkSeg 2 0], [mkSeg 3 0], [mkSeg 4 0]]}, []) =
     Inr ({canonicalRotationEdges [[mkSeg 2 0], [mkSeg 2 0], [mkSeg 3 0], [mkSeg 4 0]]}, [])"
proof -
  let ?es = "[[mkSeg 2 0], [mkSeg 2 0], [mkSeg 3 0], [mkSeg 4 0]]"
  have r: "rotate 2 ?es = [[mkSeg 3 0], [mkSeg 4 0], [mkSeg 2 0], [mkSeg 2 0]]"
    by (simp add: numeral_2_eq_2)
  have len: "length ?es = 4" by simp
  from canonical_rotation_invariant [OF len, of 2 "{canonicalRotationEdges ?es}" "[]"]
  show ?thesis unfolding r by simp
qed

text \<open>
  Claim C7. The center-1 corona with single-segment edges of sizes 2, 3, 4, 2 is valid,
  and so is the corona with its four edges in reversed order; their canonical keys
  differ, and the enumeration step on the reversed tuple, after the key of the original
  has been seen, keeps the reversed corona as a new one.
\<close>

theorem reflection_not_identified:
  "validate \<lparr>center = JInt 1, edges = [[mkSeg 2 0], [mkSeg 3 0], [mkSeg 4 0], [mkSeg 2 0]]\<rparr>
     defaultSizes = Inr success \<and>
   validate \<lparr>center = JInt 1,
      edges = rev [[mkSeg 2 0], [mkSeg 3 0], [mkSeg 4 0], [mkSeg 2 0]]\<rparr> defaultSizes =
     Inr success \<and>
   canonicalRotationEdges [[mkSeg 2 0], [mkSeg 3 0], [mkSeg 4 0], [mkSeg 2 0]] =
     ''[[2,0]];[[2,0]];[[3,0]];[[4,0]]'' \<and>
   canonicalRotationEdges (rev [[mkSeg 2 0], [mkSeg 3 0], [mkSeg 4 0], [mkSeg 2 0]]) =
     ''[[2,0]];[[2,0]];[[4,0]];[[3,0]]'' \<and>
   canonicalRotationEdges [[mkSeg 2 0], [mkSeg 3 0], [mkSeg 4 0], [mkSeg 2 0]] \<noteq>
     canonicalRotationEdges (rev [[mkSeg 2 0], [mkSeg 3 0], [mkSeg 4 0], [mkSeg 2 0]]) \<and>
   enumStep (rev [[mkSeg 2 0], [mkSeg 3 0], [mkSeg 4 0], [mkSeg 2 0]])
     ({canonicalRotationEdges [[mkSeg 2 0], [mkSeg 3 0], [mkSeg 4 0], [mkSeg 2 0]]},
      [\<lparr>center = JInt 1, edges = [[mkSeg 2 0], [mkSeg 3 0], [mkSeg 4 0], [mkSeg 2 0]]\<rparr>]) =
   Inr ({canonicalRotationEdges [[mkSeg 2 0], [mkSeg 3 0], [mkSeg 4 0], [mkSeg 2 0]],
         canonicalRotationEdges (rev [[mkSeg 2 0], [mkSeg 3 0], [mkSeg 4 0], [mkSeg 2 0]])},
        [\<lparr>center = JInt 1, edges = [[mkSeg 2 0], [mkSeg 3 0], [mkSeg 4 0], [mkSeg 2 0]]\<rparr>,
         \<lparr>center = JInt 1, edges = rev [[mkSeg 2 0], [mkSeg 3 0], [mkSeg 4 0], [mkSeg 2 0]]\<rparr>])"
  by code_simp

section \<open>The order of the checks\<close>

lemma reasonOf_simps [simp]:
  "reasonOf None = None" "reasonOf (Some (failure msg w)) = Some msg"
  by (simp_all add: reasonOf_def failure_def)

lemma segLoop_reason:
  "reasonOf (segLoop c a ei segs) =
     (case find (\<lambda>s. segReason c a s \<noteq> None) segs of
        Some s \<Rightarrow> segReason c a s | None \<Rightarrow> None)"
  by (induction segs) (auto simp: segReason_def)

lemma segLoop_failure: "segLoop c a ei segs = Some r \<Longrightarrow> \<not> ok r \<and> reason r \<noteq> None"
  by (induction segs) (auto simp: failure_def split: if_splits)

lemma adjacentLoop_reason:
  "reasonOf (adjacentLoop ei segs) =
     (if list_ex (\<lambda>(a, b). size_seg a = size_seg b) (consecutive segs)
      then Some ''not unilateral (equal adjacent sizes)'' else None)"
  by (induction ei segs rule: adjacentLoop.induct) (auto simp: consecutive_def)

lemma adjacentLoop_failure: "adjacentLoop ei segs = Some r \<Longrightarrow> \<not> ok r \<and> reason r \<noteq> None"
  by (induction ei segs rule: adjacentLoop.induct) (auto simp: failure_def split: if_splits)

lemma walkLoop_reason:
  "reasonOf (walkLoop ei segs) =
     (if list_ex (\<lambda>(prev, nxt). offset nxt \<noteq> offset prev + size_seg prev) (consecutive segs)
      then Some ''invalid edge walk'' else None)"
  by (induction ei segs rule: walkLoop.induct) (auto simp: consecutive_def)

lemma walkLoop_failure: "walkLoop ei segs = Some r \<Longrightarrow> \<not> ok r \<and> reason r \<noteq> None"
  by (induction ei segs rule: walkLoop.induct) (auto simp: failure_def split: if_splits)

lemma reasonOf_None_iff:
  assumes "\<And>r. x = Some r \<Longrightarrow> \<not> ok r \<and> reason r \<noteq> None"
  shows "reasonOf x = None \<longleftrightarrow> x = None"
  using assms by (cases x) (auto simp: reasonOf_def)

lemma find_segReason_case:
  "(case find (\<lambda>s. segReason c a s \<noteq> None) segs of Some s \<Rightarrow> segReason c a s | None \<Rightarrow> X) =
   (case segLoop c a ei segs of Some r \<Rightarrow> reason r | None \<Rightarrow> X)"
  by (induction segs) (auto simp: segReason_def failure_def)

lemma adjacent_case:
  "(if list_ex (\<lambda>(a, b). size_seg a = size_seg b) (consecutive segs)
    then Some ''not unilateral (equal adjacent sizes)'' else X) =
   (case adjacentLoop ei segs of Some r \<Rightarrow> reason r | None \<Rightarrow> X)"
  by (induction ei segs rule: adjacentLoop.induct) (auto simp: consecutive_def failure_def)

lemma walk_case:
  "(if list_ex (\<lambda>(prev, nxt). offset nxt \<noteq> offset prev + size_seg prev) (consecutive segs)
    then Some ''invalid edge walk'' else X) =
   (case walkLoop ei segs of Some r \<Rightarrow> reason r | None \<Rightarrow> X)"
  by (induction ei segs rule: walkLoop.induct) (auto simp: consecutive_def failure_def)

lemma checkEdge_reason:
  "\<exists>ro. checkEdge c a ei edge = Inr ro \<and> reasonOf ro = edgeReasonPerSegment c a edge \<and>
        (\<forall>r. ro = Some r \<longrightarrow> \<not> ok r \<and> reason r \<noteq> None)"
proof (cases "edge = []")
  case True
  then show ?thesis
    by (simp add: checkEdge_def checkSorted_def edgeReasonPerSegment_def failure_def reasonOf_def)
next
  case False
  define segs where "segs = sort_key (\<lambda>s. (offset s, size_seg s)) edge"
  from False have "segs \<noteq> []" by (simp add: segs_def sort_key_Nil_iff)
  then obtain s0 rest where segs: "segs = s0 # rest" by (cases segs) auto
  have spec: "edgeReasonPerSegment c a edge =
     (case segLoop c a ei segs of Some r \<Rightarrow> reason r
      | None \<Rightarrow>
         (case adjacentLoop ei segs of Some r \<Rightarrow> reason r
          | None \<Rightarrow>
              if offset (hd segs) \<noteq> 0 then Some ''edge does not start at 0''
              else (case walkLoop ei segs of Some r \<Rightarrow> reason r
                    | None \<Rightarrow>
                        if offset (last segs) + size_seg (last segs) < c
                        then Some ''edge does not reach center length'' else None)))"
    using False
    by (simp only: edgeReasonPerSegment_def segs_def [symmetric] Let_def if_False
        find_segReason_case [where ei = ei] adjacent_case [where ei = ei]
        walk_case [where ei = ei])
  have code: "checkEdge c a ei edge =
     (case segLoop c a ei segs of Some r \<Rightarrow> Inr (Some r)
      | None \<Rightarrow>
         (case adjacentLoop ei segs of Some r \<Rightarrow> Inr (Some r)
          | None \<Rightarrow>
              if offset (hd segs) \<noteq> 0
              then Inr (Some (failure ''edge does not start at 0'' (Some (AtEdge ei))))
              else (case walkLoop ei segs of Some r \<Rightarrow> Inr (Some r)
                    | None \<Rightarrow>
                        if offset (last segs) + size_seg (last segs) < c
                        then Inr (Some (failure ''edge does not reach center length''
                                          (Some (AtEdge ei))))
                        else Inr None)))"
  proof -
    have len: "(length edge = 0) = False" using False by simp
    have hdcase: "(case segs of [] \<Rightarrow> A | s # x \<Rightarrow> B s) = B (hd segs)" for A :: "exn + ValidationResult option" and B
      by (simp add: segs)
    show ?thesis
      by (simp only: checkEdge_def checkSorted_def sortWith_byOffsetThenSize segs_def [symmetric] Let_def
          hdcase len if_False)
  qed
  show ?thesis
    unfolding spec code
    by (auto simp: reasonOf_def failure_def split: option.splits
        dest: segLoop_failure adjacentLoop_failure walkLoop_failure)
qed

lemma edgeLoop_reason:
  "\<exists>ro. edgeLoop c a ei es = Inr ro \<and>
        reasonOf ro = firstReason (edgeReasonPerSegment c a) es \<and>
        (\<forall>r. ro = Some r \<longrightarrow> \<not> ok r \<and> reason r \<noteq> None)"
proof (induction es arbitrary: ei)
  case Nil
  show ?case by (simp add: reasonOf_def)
next
  case (Cons e es)
  obtain ro where ro: "checkEdge c a ei e = Inr ro"
    "reasonOf ro = edgeReasonPerSegment c a e"
    "\<forall>r. ro = Some r \<longrightarrow> \<not> ok r \<and> reason r \<noteq> None"
    using checkEdge_reason by blast
  show ?case
  proof (cases ro)
    case None
    with ro Cons [of "Suc ei"] show ?thesis by (auto simp: reasonOf_def)
  next
    case (Some r)
    with ro have "reason r = edgeReasonPerSegment c a e" "\<not> ok r" "reason r \<noteq> None"
      by (simp_all add: reasonOf_def)
    then show ?thesis using ro(1) Some
      by (auto simp: reasonOf_def)
  qed
qed

lemma cornerReason_eq:
  "cornerReason c cor =
     (if (\<exists>i<4. cornerGap c cor i) \<and>
         \<not> (\<forall>i<4. \<forall>j<4. size_seg (lastSegment cor i) = size_seg (lastSegment cor j))
      then Some ''1x1 corner gap with asymmetric edges'' else None)"
  unfolding cornerReason_def all_less_4 ex_less_4 by auto

text \<open>
  Claim C4, as amended. For every Corona, \<open>validate\<close> returns the reason of the first
  failing check in this order: the center is a positive integer; there are four edges;
  then edge by edge in cyclic order, on the segments sorted by (offset, size): the edge
  is non-empty; then segment by segment, the first segment that fails one of size in
  the allowed sizes and positive, offset in [0, center], not center-sized at offset 0
  (tried in this order on that segment) decides; then no two consecutive segments of
  equal size; the first offset is 0; each next offset is the previous offset plus size;
  the last offset plus size reaches the center; and after the edges the corner rule. It
  returns success exactly when no check fails.
\<close>

theorem validate_check_order:
  "\<exists>r. validate cor a = Inr r \<and> reason r = firstFailure edgeReasonPerSegment cor a \<and>
       ok r = (firstFailure edgeReasonPerSegment cor a = None)"
proof (cases "center cor")
  case (JNonInt t)
  then show ?thesis by (simp add: validate_def firstFailure_def failure_def)
next
  case (JInt c)
  show ?thesis
  proof (cases "c \<le> 0 \<or> length (edges cor) \<noteq> 4")
    case True
    with JInt show ?thesis by (auto simp: validate_def firstFailure_def failure_def)
  next
    case False
    then have c: "0 < c" and len: "length (edges cor) = 4" by auto
    obtain ro where ro: "edgeLoop c a 0 (edges cor) = Inr ro"
      "reasonOf ro = firstReason (edgeReasonPerSegment c a) (edges cor)"
      "\<forall>r. ro = Some r \<longrightarrow> \<not> ok r \<and> reason r \<noteq> None"
      using edgeLoop_reason by blast
    show ?thesis
    proof (cases ro)
      case (Some r)
      with ro have "reason r = firstReason (edgeReasonPerSegment c a) (edges cor)"
        "\<not> ok r" "reason r \<noteq> None"
        by (simp_all add: reasonOf_def)
      with ro(1) Some JInt c len show ?thesis
        by (auto simp: validate_def firstFailure_def)
    next
      case None
      with ro have first: "firstReason (edgeReasonPerSegment c a) (edges cor) = None"
        by (simp add: reasonOf_def)
      from ro(1) None have pass: "edgeLoop c a 0 (edges cor) = Inr None" by simp
      have ff: "firstFailure edgeReasonPerSegment cor a = cornerReason c cor"
        using JInt c len first by (simp add: firstFailure_def)
      show ?thesis
        unfolding validate_after_edges [OF JInt c len pass] ff cornerReason_eq
        by (simp add: failure_def success_def)
    qed
  qed
qed

text \<open>
  The claim as stated takes check (b) over all the segments of an edge before check (c).
  On the edge 2^0, 5^2 around a center of 2 check (b) fails (5 is not an allowed size),
  so the first failing check in the stated order gives "invalid segment size"; the code
  meets the center-sized square at offset 0 first and returns the reason of check (c).
\<close>

theorem validate_check_order_counterexample:
  "validate \<lparr>center = JInt 2,
      edges = [[mkSeg 2 0, mkSeg 5 2], [mkSeg 3 0], [mkSeg 3 0], [mkSeg 3 0]]\<rparr> defaultSizes =
     Inr (failure ''not unilateral (center-sized aligned)'' (Some (AtSeg 0 (mkSeg 2 0)))) \<and>
   firstFailure edgeReasonInOrder \<lparr>center = JInt 2,
      edges = [[mkSeg 2 0, mkSeg 5 2], [mkSeg 3 0], [mkSeg 3 0], [mkSeg 3 0]]\<rparr> defaultSizes =
     Some ''invalid segment size''"
  by code_simp

theorem validate_check_order_witness:
  "\<exists>r. validate \<lparr>center = JInt 2,
      edges = [[mkSeg 2 0, mkSeg 5 2], [mkSeg 3 0], [mkSeg 3 0], [mkSeg 3 0]]\<rparr> defaultSizes = Inr r \<and>
     reason r = Some ''not unilateral (center-sized aligned)'' \<and> ok r = False"
proof -
  let ?c = "\<lparr>center = JInt 2,
      edges = [[mkSeg 2 0, mkSeg 5 2], [mkSeg 3 0], [mkSeg 3 0], [mkSeg 3 0]]\<rparr>"
  have "firstFailure edgeReasonPerSegment ?c defaultSizes =
      Some ''not unilateral (center-sized aligned)''"
    by code_simp
  with validate_check_order [of ?c defaultSizes] show ?thesis by simp
qed

section \<open>Parsing the compact notation\<close>

lemma isDigit_simps [simp]:
  "\<not> isDigit CHR ''^''" "\<not> isDigit CHR ''-''" "\<not> isDigit CHR ''+''"
  "\<not> isDigit CHR '',''" "\<not> isDigit CHR ''|''"
  by (simp_all add: isDigit_def)

lemma isDigit_not_space: "isDigit ch \<Longrightarrow> \<not> isWhitespace ch"
  by (auto simp: isDigit_def isWhitespace_def)

lemma isWhitespace_simps [simp]:
  "\<not> isWhitespace CHR ''-''" "\<not> isWhitespace CHR ''^''" "\<not> isWhitespace CHR '',''"
  "\<not> isWhitespace CHR ''|''" "\<not> isWhitespace CHR ''N''" "\<not> isWhitespace CHR ''a''"
  by (simp_all add: isWhitespace_def)

lemma takeWhile_digits:
  "list_all isDigit ds \<Longrightarrow> \<not> isDigit ch \<Longrightarrow> takeWhile isDigit (ds @ ch # rest) = ds"
  by (induction ds) simp_all

lemma dropWhile_digits:
  "list_all isDigit ds \<Longrightarrow> \<not> isDigit ch \<Longrightarrow> dropWhile isDigit (ds @ ch # rest) = ch # rest"
  by (induction ds) simp_all

lemma takeWhile_all: "list_all P ds \<Longrightarrow> takeWhile P ds = ds"
  by (induction ds) simp_all

lemma matchSegPat_pos:
  assumes "d1 \<noteq> []" "list_all isDigit d1" "d2 \<noteq> []" "list_all isDigit d2"
  shows "matchSegPat (d1 @ ''^'' @ d2) = Some (d1, d2)"
proof -
  from assms(3,4) have "hd d2 \<noteq> CHR ''-''" by (cases d2) auto
  with assms show ?thesis
    by (simp add: matchSegPat_def takeWhile_digits dropWhile_digits)
qed

lemma matchSegPat_neg:
  assumes "d1 \<noteq> []" "list_all isDigit d1" "d2 \<noteq> []" "list_all isDigit d2"
  shows "matchSegPat (d1 @ ''^-'' @ d2) = Some (d1, ''-'' @ d2)"
  using assms by (simp add: matchSegPat_def takeWhile_digits dropWhile_digits)

lemma matchSegPat_Some:
  assumes "matchSegPat tok = Some (m1, m2)"
  shows "m1 \<noteq> [] \<and> list_all isDigit m1 \<and>
     (\<exists>d2. d2 \<noteq> [] \<and> list_all isDigit d2 \<and> (m2 = d2 \<or> m2 = ''-'' @ d2)) \<and>
     tok = m1 @ ''^'' @ m2"
proof -
  have split: "tok = takeWhile isDigit tok @ dropWhile isDigit tok" by simp
  from assms have m1: "m1 = takeWhile isDigit tok" "m1 \<noteq> []"
    by (auto simp: matchSegPat_def Let_def split: if_splits list.splits)
  from assms have rest: "dropWhile isDigit tok = CHR ''^'' # m2"
    by (auto simp: matchSegPat_def Let_def split: if_splits list.splits)
  from assms have ds: "(if m2 \<noteq> [] \<and> hd m2 = CHR ''-'' then tl m2 else m2) \<noteq> []"
    "list_all isDigit (if m2 \<noteq> [] \<and> hd m2 = CHR ''-'' then tl m2 else m2)"
    by (auto simp: matchSegPat_def Let_def split: if_splits list.splits)
  have digs: "list_all isDigit m1" unfolding m1 by (simp add: list_all_iff) (meson set_takeWhileD)
  have "\<exists>d2. d2 \<noteq> [] \<and> list_all isDigit d2 \<and> (m2 = d2 \<or> m2 = ''-'' @ d2)"
  proof (cases "m2 \<noteq> [] \<and> hd m2 = CHR ''-''")
    case True
    then have "m2 = ''-'' @ tl m2" by (cases m2) auto
    with ds True show ?thesis by auto
  next
    case False
    with ds show ?thesis by auto
  qed
  moreover from split rest m1 have "tok = m1 @ ''^'' @ m2" by simp
  ultimately show ?thesis using m1 digs by simp
qed

lemma matchSegPat_iff: "matchSegPat tok \<noteq> None \<longleftrightarrow> segPattern tok"
proof
  assume "matchSegPat tok \<noteq> None"
  then obtain m1 m2 where "matchSegPat tok = Some (m1, m2)" by auto
  from matchSegPat_Some [OF this] show "segPattern tok"
    unfolding segPattern_def by auto
next
  assume "segPattern tok"
  then show "matchSegPat tok \<noteq> None"
    unfolding segPattern_def using matchSegPat_pos matchSegPat_neg by fastforce
qed

lemma parseInt_digits:
  assumes "ds \<noteq> []" "list_all isDigit ds"
  shows "parseInt ds = JInt (int (digitsValue ds))"
proof -
  from assms obtain d rest where ds: "ds = d # rest" "isDigit d" by (cases ds) auto
  then have "\<not> isWhitespace d" "d \<noteq> CHR ''+''" "d \<noteq> CHR ''-''"
    using isDigit_not_space by auto
  with assms ds show ?thesis
    by (simp add: parseInt_def Let_def takeWhile_all)
qed

lemma parseInt_neg_digits:
  assumes "ds \<noteq> []" "list_all isDigit ds"
  shows "parseInt (''-'' @ ds) = JInt (- int (digitsValue ds))"
  using assms by (simp add: parseInt_def Let_def takeWhile_all)

lemma parseToken_ok:
  assumes "matchSegPat tok = Some (m1, m2)"
  shows "\<exists>sg. parseToken tok = Inr sg \<and> 0 \<le> size_seg sg"
proof -
  from matchSegPat_Some [OF assms] obtain d2 where
    m1: "m1 \<noteq> []" "list_all isDigit m1" and
    d2: "d2 \<noteq> []" "list_all isDigit d2" "m2 = d2 \<or> m2 = ''-'' @ d2" by blast
  from d2 have "\<exists>off. parseInt m2 = JInt off"
    using parseInt_digits [of d2] parseInt_neg_digits [of d2] by auto
  then show ?thesis
    using assms parseInt_digits [OF m1] by (auto simp: parseToken_def)
qed

lemma parseToken_isl: "isl (parseToken tok) \<longleftrightarrow> \<not> segPattern tok"
proof (cases "matchSegPat tok")
  case None
  then show ?thesis using matchSegPat_iff [of tok] by (simp add: parseToken_def)
next
  case (Some m)
  obtain m1 m2 where "m = (m1, m2)" by (cases m)
  with Some parseToken_ok [of tok m1 m2] matchSegPat_iff [of tok] show ?thesis by auto
qed

lemma tokenLoop_isl: "isl (tokenLoop toks) \<longleftrightarrow> (\<exists>tok\<in>set toks. \<not> segPattern tok)"
  by (induction toks) (auto simp: parseToken_isl [symmetric] split: sum.splits)

lemma partLoop_isl:
  "isl (partLoop ps) \<longleftrightarrow> (\<exists>p\<in>set ps. \<exists>tok\<in>set (split CHR '','' p). \<not> segPattern tok)"
  by (induction ps) (auto simp: tokenLoop_isl [symmetric] split: sum.splits)

lemma filter_dropWhile: "filter (\<lambda>x. \<not> P x) (dropWhile P xs) = filter (\<lambda>x. \<not> P x) xs"
  by (induction xs) simp_all

lemma filter_trim:
  "filter (\<lambda>ch. \<not> isWhitespace ch) (trim s) = filter (\<lambda>ch. \<not> isWhitespace ch) s"
proof -
  have "filter (\<lambda>ch. \<not> isWhitespace ch) (trim s) =
      rev (filter (\<lambda>ch. \<not> isWhitespace ch) (dropWhile isWhitespace (rev (dropWhile isWhitespace s))))"
    by (simp add: trim_def rev_filter)
  also have "\<dots> = rev (filter (\<lambda>ch. \<not> isWhitespace ch) (rev (dropWhile isWhitespace s)))"
    by (simp only: filter_dropWhile)
  also have "\<dots> = filter (\<lambda>ch. \<not> isWhitespace ch) (dropWhile isWhitespace s)"
    by (simp add: rev_filter)
  also have "\<dots> = filter (\<lambda>ch. \<not> isWhitespace ch) s"
    by (simp only: filter_dropWhile)
  finally show ?thesis .
qed

lemma fromCompact_parts:
  "fromCompact s =
     (if length (strippedParts s) \<noteq> 5 then Inl (Error ''Expected center + 4 edges'')
      else case partLoop (tl (strippedParts s)) of
             Inl e \<Rightarrow> Inl e
           | Inr es \<Rightarrow> Inr \<lparr>center = parseInt (strippedParts s ! 0), edges = es\<rparr>)"
  unfolding fromCompact_def strippedParts_def filter_trim Let_def ..

text \<open>
  Claim C6. \<open>fromCompact\<close> throws if and only if the input without its white space,
  split at the bars, does not have exactly 5 parts, or some comma-separated token of
  the parts after the first does not match the pattern digits, caret, optionally signed
  digits. On every other input it returns a Corona.
\<close>

theorem fromCompact_raises_iff:
  "isl (fromCompact s) \<longleftrightarrow>
     length (strippedParts s) \<noteq> 5 \<or>
     (\<exists>part\<in>set (tl (strippedParts s)). \<exists>tok\<in>set (split CHR '','' part). \<not> segPattern tok)"
  unfolding fromCompact_parts partLoop_isl [symmetric]
  by (auto split: sum.splits)

theorem fromCompact_raises_iff_witness:
  "isl (fromCompact ''1|2^0|2^0|2^0'') \<and> isl (fromCompact ''1|2^0|2^0|2^0|2^'') \<and>
   \<not> isl (fromCompact '' 2 | 1^0,2^1 | 1^0,2^1 | 1^0,4^1 | 1^0,4^-1'')"
proof -
  have a: "length (strippedParts ''1|2^0|2^0|2^0'') \<noteq> 5"
    by (simp add: strippedParts_def isWhitespace_def)
  have "matchSegPat ''2^'' = None" by (simp add: matchSegPat_def isDigit_def)
  then have "\<not> segPattern ''2^''" using matchSegPat_iff [of "''2^''"] by simp
  moreover have "strippedParts ''1|2^0|2^0|2^0|2^'' = [''1'', ''2^0'', ''2^0'', ''2^0'', ''2^'']"
    by (simp add: strippedParts_def isWhitespace_def)
  ultimately have b: "\<exists>part\<in>set (tl (strippedParts ''1|2^0|2^0|2^0|2^'')).
      \<exists>tok\<in>set (split CHR '','' part). \<not> segPattern tok"
    by simp
  have m: "matchSegPat ''1^0'' \<noteq> None" "matchSegPat ''2^1'' \<noteq> None"
    "matchSegPat ''4^1'' \<noteq> None" "matchSegPat ''4^-1'' \<noteq> None"
    by (simp_all add: matchSegPat_def isDigit_def)
  have p: "segPattern ''1^0''" "segPattern ''2^1''" "segPattern ''4^1''" "segPattern ''4^-1''"
    using m by (simp_all only: matchSegPat_iff)
  have c: "strippedParts '' 2 | 1^0,2^1 | 1^0,2^1 | 1^0,4^1 | 1^0,4^-1'' =
      [''2'', ''1^0,2^1'', ''1^0,2^1'', ''1^0,4^1'', ''1^0,4^-1'']"
    by (simp add: strippedParts_def isWhitespace_def)
  show ?thesis
    using fromCompact_raises_iff [of "''1|2^0|2^0|2^0''"] a
      fromCompact_raises_iff [of "''1|2^0|2^0|2^0|2^''"] b
      fromCompact_raises_iff [of "'' 2 | 1^0,2^1 | 1^0,2^1 | 1^0,4^1 | 1^0,4^-1''"] p
    unfolding c by simp
qed






section \<open>Printing and parsing back\<close>

lemma less_10_cases:
  "d < 10 \<Longrightarrow> d = 0 \<or> d = 1 \<or> d = 2 \<or> d = 3 \<or> d = 4 \<or> d = 5 \<or> d = 6 \<or> d = 7 \<or> d = 8 \<or> d = (9::nat)"
  by arith

lemma digitChar_isDigit: "d < 10 \<Longrightarrow> isDigit (digitChar d)"
  by (drule less_10_cases) (auto simp: digitChar_def isDigit_def)

lemma digitValue_digitChar: "d < 10 \<Longrightarrow> digitValue (digitChar d) = d"
  by (drule less_10_cases) (auto simp: digitChar_def digitValue_def)

lemma digitChar_0_iff: "d < 10 \<Longrightarrow> digitChar d = CHR ''0'' \<longleftrightarrow> d = 0"
  by (drule less_10_cases) (auto simp: digitChar_def)

lemma digitsOf_digits: "list_all isDigit (digitsOf n) \<and> digitsOf n \<noteq> []"
proof (induction n rule: digitsOf.induct)
  case (1 n)
  show ?case
  proof (cases "n < 10")
    case True
    then show ?thesis by (simp add: digitsOf.simps [of n] digitChar_isDigit)
  next
    case False
    with 1 show ?thesis by (simp add: digitsOf.simps [of n] digitChar_isDigit)
  qed
qed

lemma digitsValue_snoc: "digitsValue (ds @ [ch]) = 10 * digitsValue ds + digitValue ch"
  by (simp add: digitsValue_def)

lemma digitsValue_digitsOf: "digitsValue (digitsOf n) = n"
proof (induction n rule: digitsOf.induct)
  case (1 n)
  show ?case
  proof (cases "n < 10")
    case True
    then show ?thesis
      by (simp add: digitsOf.simps [of n] digitsValue_def digitValue_digitChar)
  next
    case False
    with 1 have "digitsValue (digitsOf (n div 10)) = n div 10" by simp
    with False show ?thesis
      by (simp add: digitsOf.simps [of n] digitsValue_snoc digitValue_digitChar)
  qed
qed

lemma hd_digitsOf: "0 < n \<Longrightarrow> hd (digitsOf n) \<noteq> CHR ''0''"
proof (induction n rule: digitsOf.induct)
  case (1 n)
  show ?case
  proof (cases "n < 10")
    case True
    with "1.prems" show ?thesis by (simp add: digitsOf.simps [of n] digitChar_0_iff)
  next
    case False
    then have "0 < n div 10" by simp
    with 1 False have "hd (digitsOf (n div 10)) \<noteq> CHR ''0''" by simp
    moreover have "digitsOf (n div 10) \<noteq> []" using digitsOf_digits by blast
    ultimately show ?thesis using False by (simp add: digitsOf.simps [of n])
  qed
qed

lemma parseInt_intToString: "parseInt (intToString n) = JInt n"
proof (cases "n < 0")
  case True
  have "parseInt (''-'' @ digitsOf (nat (- n))) = JInt (- int (digitsValue (digitsOf (nat (- n)))))"
    using digitsOf_digits by (intro parseInt_neg_digits) auto
  with True show ?thesis by (simp add: intToString_def digitsValue_digitsOf)
next
  case False
  have "parseInt (digitsOf (nat n)) = JInt (int (digitsValue (digitsOf (nat n))))"
    using digitsOf_digits by (intro parseInt_digits) auto
  with False show ?thesis by (simp add: intToString_def digitsValue_digitsOf)
qed

lemma parseInt_NaN: "parseInt ''NaN'' = NaN"
  by (simp add: parseInt_def isWhitespace_def isDigit_def)

text \<open>The characters of a printed integer.\<close>

lemma intToString_chars: "ch \<in> set (intToString n) \<Longrightarrow> isDigit ch \<or> ch = CHR ''-''"
  using digitsOf_digits [of "nat n"] digitsOf_digits [of "nat (- n)"]
  by (auto simp: intToString_def list_all_iff split: if_splits)


lemma tokenOf_chars:
  "ch \<in> set (tokenOf sg) \<Longrightarrow> isDigit ch \<or> ch = CHR ''-'' \<or> ch = CHR ''^''"
  using intToString_chars by (auto simp: tokenOf_def)

lemma parseToken_tokenOf:
  assumes "0 \<le> size_seg sg"
  shows "parseToken (tokenOf sg) = Inr sg"
proof -
  let ?d1 = "digitsOf (nat (size_seg sg))"
  have d1: "?d1 \<noteq> []" "list_all isDigit ?d1" using digitsOf_digits by auto
  have s: "intToString (size_seg sg) = ?d1" using assms by (simp add: intToString_def)
  have p1: "parseInt ?d1 = JInt (size_seg sg)"
    using parseInt_intToString [of "size_seg sg"] s by simp
  show ?thesis
  proof (cases "offset sg < 0")
    case True
    let ?d2 = "digitsOf (nat (- offset sg))"
    have d2: "?d2 \<noteq> []" "list_all isDigit ?d2" using digitsOf_digits by auto
    have o: "intToString (offset sg) = ''-'' @ ?d2" using True by (simp add: intToString_def)
    have "tokenOf sg = ?d1 @ ''^-'' @ ?d2" by (simp add: tokenOf_def s o)
    then have "matchSegPat (tokenOf sg) = Some (?d1, ''-'' @ ?d2)"
      using matchSegPat_neg [OF d1 d2] by simp
    moreover have "parseInt (''-'' @ ?d2) = JInt (offset sg)"
      using parseInt_intToString [of "offset sg"] o by simp
    ultimately show ?thesis using p1 by (simp add: parseToken_def)
  next
    case False
    let ?d2 = "digitsOf (nat (offset sg))"
    have d2: "?d2 \<noteq> []" "list_all isDigit ?d2" using digitsOf_digits by auto
    have o: "intToString (offset sg) = ?d2" using False by (simp add: intToString_def)
    have "tokenOf sg = ?d1 @ ''^'' @ ?d2" by (simp add: tokenOf_def s o)
    then have "matchSegPat (tokenOf sg) = Some (?d1, ?d2)"
      using matchSegPat_pos [OF d1 d2] by simp
    moreover have "parseInt ?d2 = JInt (offset sg)"
      using parseInt_intToString [of "offset sg"] o by simp
    ultimately show ?thesis using p1 by (simp add: parseToken_def)
  qed
qed

lemma tokenLoop_tokenOf:
  "list_all (\<lambda>s. 0 \<le> size_seg s) segs \<Longrightarrow> tokenLoop (map tokenOf segs) = Inr segs"
  by (induction segs) (simp_all add: parseToken_tokenOf)

lemma split_no_sep: "sep \<notin> set x \<Longrightarrow> split sep x = [x]"
  by (induction x) (auto simp: Let_def)

lemma split_append_sep:
  "sep \<notin> set x \<Longrightarrow> split sep (x @ sep # rest) = x # split sep rest"
  by (induction x) (auto simp: Let_def)

lemma split_join:
  "xs \<noteq> [] \<Longrightarrow> \<forall>x\<in>set xs. sep \<notin> set x \<Longrightarrow> split sep (join [sep] xs) = xs"
  by (induction "[sep]" xs rule: join.induct) (simp_all add: split_no_sep split_append_sep)

lemma split_nonempty: "split sep s \<noteq> []"
  by (induction s) (auto simp: Let_def)


lemma toCompact_eq:
  "toCompact cor = join ''|'' (numToString (center cor) # map edgeText (edges cor))"
  unfolding toCompact_def edgeText_def tokenOf_def sortWith_byOffsetThenSize Let_def ..

lemma join_chars:
  "ch \<in> set (join sep xs) \<Longrightarrow> ch \<in> set sep \<or> (\<exists>x\<in>set xs. ch \<in> set x)"
  by (induction sep xs rule: join.induct) auto

lemma edgeText_chars:
  assumes "ch \<in> set (edgeText e)"
  shows "isDigit ch \<or> ch = CHR ''-'' \<or> ch = CHR ''^'' \<or> ch = CHR '',''"
  using join_chars [OF assms [unfolded edgeText_def]] tokenOf_chars by auto

lemma tokenLoop_edgeText:
  assumes "e \<noteq> []" "list_all (\<lambda>s. 0 \<le> size_seg s) e"
  shows "tokenLoop (split CHR '','' (edgeText e)) = Inr (sort_key (\<lambda>s. (offset s, size_seg s)) e)"
proof -
  let ?segs = "sort_key (\<lambda>s. (offset s, size_seg s)) e"
  have ne: "map tokenOf ?segs \<noteq> []" using assms(1) by (simp add: sort_key_Nil_iff)
  have "\<forall>x\<in>set (map tokenOf ?segs). CHR '','' \<notin> set x"
  proof (intro ballI notI)
    fix x assume "x \<in> set (map tokenOf ?segs)" "CHR '','' \<in> set x"
    then obtain sg where "CHR '','' \<in> set (tokenOf sg)" by auto
    from tokenOf_chars [OF this] show False by simp
  qed
  with ne have "split CHR '','' (edgeText e) = map tokenOf ?segs"
    unfolding edgeText_def by (rule split_join)
  moreover have "list_all (\<lambda>s. 0 \<le> size_seg s) ?segs"
    using assms(2) by (simp add: list_all_iff)
  ultimately show ?thesis by (simp add: tokenLoop_tokenOf)
qed

lemma partLoop_edgeText:
  "list_all (\<lambda>e. e \<noteq> [] \<and> list_all (\<lambda>s. 0 \<le> size_seg s) e) es \<Longrightarrow>
   partLoop (map edgeText es) = Inr (map (sort_key (\<lambda>s. (offset s, size_seg s))) es)"
  by (induction es) (simp_all add: tokenLoop_edgeText)

lemma center_chars:
  assumes "case center cor of JInt n \<Rightarrow> True | JNonInt t \<Rightarrow> t = ''NaN''"
    and "ch \<in> set (numToString (center cor))"
  shows "isDigit ch \<or> ch = CHR ''-'' \<or> ch = CHR ''N'' \<or> ch = CHR ''a''"
  using assms intToString_chars by (cases "center cor") (auto simp: numToString_def)

lemma parseInt_numToString:
  assumes "case center cor of JInt n \<Rightarrow> True | JNonInt t \<Rightarrow> t = ''NaN''"
  shows "parseInt (numToString (center cor)) = center cor"
  using assms
  by (cases "center cor") (auto simp: numToString_def parseInt_intToString parseInt_NaN NaN_def)

lemma strippedParts_toCompact:
  assumes "case center cor of JInt n \<Rightarrow> True | JNonInt t \<Rightarrow> t = ''NaN''"
  shows "strippedParts (toCompact cor) = numToString (center cor) # map edgeText (edges cor)"
proof -
  let ?parts = "numToString (center cor) # map edgeText (edges cor)"
  have chars: "isDigit ch \<or> ch = CHR ''-'' \<or> ch = CHR ''^'' \<or> ch = CHR '','' \<or>
      ch = CHR ''N'' \<or> ch = CHR ''a''" if "x \<in> set ?parts" "ch \<in> set x" for x ch
    using that center_chars [OF assms] edgeText_chars by auto
  have "\<not> isWhitespace ch" if "ch \<in> set (toCompact cor)" for ch
  proof -
    from that have "ch \<in> set ''|'' \<or> (\<exists>x\<in>set ?parts. ch \<in> set x)"
      unfolding toCompact_eq by (rule join_chars)
    then consider "ch = CHR ''|''" | x where "x \<in> set ?parts" "ch \<in> set x" by auto
    then show ?thesis
    proof cases
      case 1
      then show ?thesis by simp
    next
      case 2
      from chars [OF 2] show ?thesis
        by (elim disjE) (simp_all add: isDigit_not_space)
    qed
  qed
  then have "filter (\<lambda>ch. \<not> isWhitespace ch) (toCompact cor) = toCompact cor"
    by (simp add: filter_id_conv)
  moreover have "\<forall>x\<in>set ?parts. CHR ''|'' \<notin> set x"
  proof (intro ballI notI)
    fix x assume "x \<in> set ?parts" "CHR ''|'' \<in> set x"
    from chars [OF this] show False by simp
  qed
  then have "split CHR ''|'' (join ''|'' ?parts) = ?parts"
    by (intro split_join) simp_all
  ultimately show ?thesis by (simp add: strippedParts_def toCompact_eq)
qed

lemma fromCompact_toCompact:
  assumes "parseable cor"
  shows "fromCompact (toCompact cor) = Inr (sortEdges cor)"
proof -
  from assms have c: "case center cor of JInt n \<Rightarrow> True | JNonInt t \<Rightarrow> t = ''NaN''"
    and len: "length (edges cor) = 4"
    and es: "list_all (\<lambda>e. e \<noteq> [] \<and> list_all (\<lambda>s. 0 \<le> size_seg s) e) (edges cor)"
    by (simp_all add: parseable_def)
  show ?thesis
    unfolding fromCompact_parts strippedParts_toCompact [OF c]
    using len by (simp add: partLoop_edgeText [OF es] parseInt_numToString [OF c] sortEdges_def)
qed

lemma edgeText_sorted: "edgeText (sort_key (\<lambda>s. (offset s, size_seg s)) e) = edgeText e"
  by (simp add: edgeText_def sort_key_id_if_sorted)

lemma toCompact_sortEdges: "toCompact (sortEdges cor) = toCompact cor"
  by (simp add: toCompact_eq sortEdges_def edgeText_sorted comp_def)

lemma parseable_sortEdges: "parseable cor \<Longrightarrow> parseable (sortEdges cor)"
  by (auto simp: parseable_def sortEdges_def list_all_iff sort_key_Nil_iff)

lemma edgesSorted_sortEdges: "edgesSorted (sortEdges cor)"
  by (simp add: edgesSorted_def sortEdges_def list_all_iff)

lemma parseToken_size: "parseToken tok = Inr sg \<Longrightarrow> 0 \<le> size_seg sg"
proof (cases "matchSegPat tok")
  case None
  assume "parseToken tok = Inr sg"
  with None show ?thesis by (simp add: parseToken_def)
next
  case (Some m)
  assume r: "parseToken tok = Inr sg"
  obtain m1 m2 where "m = (m1, m2)" by (cases m)
  with Some parseToken_ok [of tok m1 m2] r show ?thesis by auto
qed

lemma tokenLoop_range:
  "tokenLoop toks = Inr segs \<Longrightarrow>
   length segs = length toks \<and> list_all (\<lambda>s. 0 \<le> size_seg s) segs"
  by (induction toks arbitrary: segs) (auto split: sum.splits dest: parseToken_size)

lemma partLoop_range:
  "partLoop ps = Inr es \<Longrightarrow>
   length es = length ps \<and> list_all (\<lambda>e. e \<noteq> [] \<and> list_all (\<lambda>s. 0 \<le> size_seg s) e) es"
proof (induction ps arbitrary: es)
  case Nil
  then show ?case by simp
next
  case (Cons p ps)
  from Cons.prems obtain segs es' where
    a: "tokenLoop (split CHR '','' p) = Inr segs" and b: "partLoop ps = Inr es'"
    and es: "es = segs # es'"
    by (auto split: sum.splits)
  from tokenLoop_range [OF a] split_nonempty [of "CHR '',''" p]
  have "segs \<noteq> []" "list_all (\<lambda>s. 0 \<le> size_seg s) segs" by auto
  with Cons.IH [OF b] es show ?case by simp
qed

lemma parseInt_range: "case parseInt p of JInt n \<Rightarrow> True | JNonInt t \<Rightarrow> t = ''NaN''"
  by (simp add: parseInt_def Let_def NaN_def)

lemma fromCompact_range:
  assumes "fromCompact t = Inr cor"
  shows "parseable cor"
proof -
  from assms have len: "length (strippedParts t) = 5"
    unfolding fromCompact_parts by (auto split: if_splits)
  with assms obtain es where es: "partLoop (tl (strippedParts t)) = Inr es"
    and cor: "cor = \<lparr>center = parseInt (strippedParts t ! 0), edges = es\<rparr>"
    unfolding fromCompact_parts by (auto split: sum.splits)
  from partLoop_range [OF es] len show ?thesis
    using parseInt_range [of "strippedParts t ! 0"] by (simp add: parseable_def cor)
qed

lemma hd_join: "x \<noteq> [] \<Longrightarrow> hd (join sep (x # xs)) = hd x"
  by (cases xs) simp_all

lemma wellFormed_hd:
  assumes "wellFormed cor"
  shows "hd (toCompact cor) \<noteq> CHR ''0''"
proof -
  from assms obtain n where n: "center cor = JInt n" "0 < n"
    by (cases "center cor") (auto simp: wellFormed_def)
  then have s: "numToString (center cor) = digitsOf (nat n)"
    by (simp add: numToString_def intToString_def)
  have "digitsOf (nat n) \<noteq> []" using digitsOf_digits by blast
  then have "hd (toCompact cor) = hd (digitsOf (nat n))"
    unfolding toCompact_eq s by (rule hd_join)
  with n(2) show ?thesis using hd_digitsOf [of "nat n"] by simp
qed

lemma wellFormed_parseable: "wellFormed cor \<Longrightarrow> parseable cor"
  by (cases "center cor") (auto simp: wellFormed_def parseable_def list_all_iff intro: less_imp_le)

lemma mset_sortEdges: "map mset (edges (sortEdges cor)) = map mset (edges cor)"
  by (simp add: sortEdges_def comp_def)

lemma safeNumbers_sortEdges: "safeNumbers (sortEdges cor) \<longleftrightarrow> safeNumbers cor"
  by (simp add: safeNumbers_def sortEdges_def list_all_iff)

text \<open>
  Claim C5, as amended. For every Corona with an integer or NaN center, four non-empty
  edges and segments of non-negative size (every well-formed Corona is one), whose
  numbers are all at most \<^verbatim>\<open>Number.MAX_SAFE_INTEGER\<close> in absolute value,
  \<open>fromCompact (toCompact c)\<close> returns a Corona with the same center and, edge by edge,
  the same multiset of segments, every edge sorted by (offset, size). For numbers in
  that range \<open>toCompact\<close> prints, for each edge, the tokens of its segments sorted by
  (offset, size). And a text \<open>t\<close> parses to a Corona with numbers in that range that
  prints back to \<open>t\<close> exactly when \<open>t\<close> is \<open>toCompact\<close> of such a Corona, whose edges can
  be taken sorted.
\<close>

theorem compact_round_trip:
  "(parseable cor \<and> safeNumbers cor \<longrightarrow>
      (\<exists>cor'. fromCompact (toCompact cor) = Inr cor' \<and> center cor' = center cor \<and>
               map mset (edges cor') = map mset (edges cor) \<and> edgesSorted cor')) \<and>
   (wellFormed cor \<longrightarrow> parseable cor) \<and>
   (safeNumbers cor \<longrightarrow>
      toCompact cor =
        join ''|'' (numToString (center cor) #
          map (\<lambda>e. join '','' (map tokenOf (sort_key (\<lambda>s. (offset s, size_seg s)) e)))
            (edges cor))) \<and>
   ((\<exists>cor'. fromCompact t = Inr cor' \<and> safeNumbers cor' \<and> toCompact cor' = t) \<longleftrightarrow>
    (\<exists>cor0. parseable cor0 \<and> safeNumbers cor0 \<and> edgesSorted cor0 \<and> t = toCompact cor0))"
proof (intro conjI impI)
  assume "parseable cor \<and> safeNumbers cor"
  then have "parseable cor" by (rule conjunct1)
  then have "fromCompact (toCompact cor) = Inr (sortEdges cor)"
    by (rule fromCompact_toCompact)
  moreover have "center (sortEdges cor) = center cor" by (simp add: sortEdges_def)
  ultimately show "\<exists>cor'. fromCompact (toCompact cor) = Inr cor' \<and> center cor' = center cor \<and>
      map mset (edges cor') = map mset (edges cor) \<and> edgesSorted cor'"
    using mset_sortEdges edgesSorted_sortEdges by blast
next
  assume "wellFormed cor"
  then show "parseable cor" by (rule wellFormed_parseable)
next
  show "toCompact cor =
     join ''|'' (numToString (center cor) #
       map (\<lambda>e. join '','' (map tokenOf (sort_key (\<lambda>s. (offset s, size_seg s)) e))) (edges cor))"
    unfolding toCompact_eq edgeText_def ..
next
  show "(\<exists>cor'. fromCompact t = Inr cor' \<and> safeNumbers cor' \<and> toCompact cor' = t) \<longleftrightarrow>
    (\<exists>cor0. parseable cor0 \<and> safeNumbers cor0 \<and> edgesSorted cor0 \<and> t = toCompact cor0)"
  proof
    assume "\<exists>cor'. fromCompact t = Inr cor' \<and> safeNumbers cor' \<and> toCompact cor' = t"
    then obtain cor' where c: "fromCompact t = Inr cor'" "safeNumbers cor'" "toCompact cor' = t"
      by blast
    from c(1) have "parseable cor'" by (rule fromCompact_range)
    then have "parseable (sortEdges cor')" by (rule parseable_sortEdges)
    moreover have "safeNumbers (sortEdges cor')" using c(2) by (simp add: safeNumbers_sortEdges)
    moreover have "edgesSorted (sortEdges cor')" by (rule edgesSorted_sortEdges)
    moreover have "t = toCompact (sortEdges cor')" using c(3) by (simp add: toCompact_sortEdges)
    ultimately show "\<exists>cor0. parseable cor0 \<and> safeNumbers cor0 \<and> edgesSorted cor0 \<and>
        t = toCompact cor0" by blast
  next
    assume "\<exists>cor0. parseable cor0 \<and> safeNumbers cor0 \<and> edgesSorted cor0 \<and> t = toCompact cor0"
    then obtain cor0 where c: "parseable cor0" "safeNumbers cor0" "t = toCompact cor0" by blast
    from c(1) have "fromCompact (toCompact cor0) = Inr (sortEdges cor0)"
      by (rule fromCompact_toCompact)
    moreover have "safeNumbers (sortEdges cor0)" using c(2) by (simp add: safeNumbers_sortEdges)
    moreover have "toCompact (sortEdges cor0) = toCompact cor0" by (rule toCompact_sortEdges)
    ultimately show "\<exists>cor'. fromCompact t = Inr cor' \<and> safeNumbers cor' \<and> toCompact cor' = t"
      using c(3) by auto
  qed
qed

text \<open>
  The claim as stated fails in both readings of its last part. Read over the
  well-formed Coronas: the text 0|1^0|1^0|1^0|1^0 parses and prints back unchanged, and
  no Corona with a positive center prints to it. Read over all Coronas: the Corona with
  three sorted edges prints to a text that does not parse. (The bound on the numbers in
  the amended claim is forced by the code as well: it prints a number such as
  \<^verbatim>\<open>1e21\<close> in exponent form, which does not parse back to it.)
\<close>

theorem compact_round_trip_counterexample:
  "(\<exists>cor'. fromCompact ''0|1^0|1^0|1^0|1^0'' = Inr cor' \<and> toCompact cor' = ''0|1^0|1^0|1^0|1^0'') \<and>
   \<not> (\<exists>cor. wellFormed cor \<and> edgesSorted cor \<and> toCompact cor = ''0|1^0|1^0|1^0|1^0'') \<and>
   edgesSorted \<lparr>center = JInt 1, edges = [[mkSeg 2 0], [mkSeg 2 0], [mkSeg 2 0]]\<rparr> \<and>
   fromCompact (toCompact \<lparr>center = JInt 1, edges = [[mkSeg 2 0], [mkSeg 2 0], [mkSeg 2 0]]\<rparr>) =
     Inl (Error ''Expected center + 4 edges'')"
proof (intro conjI)
  let ?c0 = "\<lparr>center = JInt 0, edges = [[mkSeg 1 0], [mkSeg 1 0], [mkSeg 1 0], [mkSeg 1 0]]\<rparr>"
  have "fromCompact ''0|1^0|1^0|1^0|1^0'' = Inr ?c0" by code_simp
  moreover have "toCompact ?c0 = ''0|1^0|1^0|1^0|1^0''" by code_simp
  ultimately show "\<exists>cor'. fromCompact ''0|1^0|1^0|1^0|1^0'' = Inr cor' \<and>
      toCompact cor' = ''0|1^0|1^0|1^0|1^0''" by blast
next
  show "\<not> (\<exists>cor. wellFormed cor \<and> edgesSorted cor \<and> toCompact cor = ''0|1^0|1^0|1^0|1^0'')"
  proof
    assume "\<exists>cor. wellFormed cor \<and> edgesSorted cor \<and> toCompact cor = ''0|1^0|1^0|1^0|1^0''"
    then obtain cor where "wellFormed cor" "toCompact cor = ''0|1^0|1^0|1^0|1^0''" by blast
    with wellFormed_hd [of cor] show False by simp
  qed
next
  show "edgesSorted \<lparr>center = JInt 1, edges = [[mkSeg 2 0], [mkSeg 2 0], [mkSeg 2 0]]\<rparr>"
    by (simp add: edgesSorted_def)
next
  show "fromCompact (toCompact \<lparr>center = JInt 1, edges = [[mkSeg 2 0], [mkSeg 2 0], [mkSeg 2 0]]\<rparr>) =
     Inl (Error ''Expected center + 4 edges'')"
    by code_simp
qed

theorem compact_round_trip_witness:
  "(\<exists>cor'. fromCompact (toCompact \<lparr>center = JInt 2,
        edges = [[mkSeg 2 1, mkSeg 1 0], [mkSeg 3 0], [mkSeg 3 0], [mkSeg 3 0]]\<rparr>) = Inr cor' \<and>
      center cor' = JInt 2 \<and>
      map mset (edges cor') =
        map mset [[mkSeg 2 1, mkSeg 1 0], [mkSeg 3 0], [mkSeg 3 0], [mkSeg 3 0]] \<and>
      edgesSorted cor') \<and>
   (\<exists>cor'. fromCompact ''2|1^0,2^1|3^0|3^0|3^0'' = Inr cor' \<and> safeNumbers cor' \<and>
      toCompact cor' = ''2|1^0,2^1|3^0|3^0|3^0'')"
proof -
  let ?c = "\<lparr>center = JInt 2,
        edges = [[mkSeg 2 1, mkSeg 1 0], [mkSeg 3 0], [mkSeg 3 0], [mkSeg 3 0]]\<rparr>"
  let ?s = "\<lparr>center = JInt 2,
        edges = [[mkSeg 1 0, mkSeg 2 1], [mkSeg 3 0], [mkSeg 3 0], [mkSeg 3 0]]\<rparr>"
  have p: "parseable ?c \<and> safeNumbers ?c"
    by (simp add: parseable_def safeNumbers_def safeInt_def maxSafeInteger_def mkSeg_def)
  have ps: "parseable ?s" by (simp add: parseable_def mkSeg_def)
  have sf: "safeNumbers ?s"
    by (simp add: safeNumbers_def safeInt_def maxSafeInteger_def mkSeg_def)
  have ss: "edgesSorted ?s" by (simp add: edgesSorted_def mkSeg_def)
  have ts: "''2|1^0,2^1|3^0|3^0|3^0'' = toCompact ?s" by code_simp
  from ps sf ss ts have ex: "\<exists>cor0. parseable cor0 \<and> safeNumbers cor0 \<and> edgesSorted cor0 \<and>
      ''2|1^0,2^1|3^0|3^0|3^0'' = toCompact cor0" by blast
  have a: "\<exists>cor'. fromCompact (toCompact ?c) = Inr cor' \<and> center cor' = center ?c \<and>
      map mset (edges cor') = map mset (edges ?c) \<and> edgesSorted cor'"
    using compact_round_trip [of ?c "''2|1^0,2^1|3^0|3^0|3^0''"] p by blast
  have b: "\<exists>cor'. fromCompact ''2|1^0,2^1|3^0|3^0|3^0'' = Inr cor' \<and> safeNumbers cor' \<and>
      toCompact cor' = ''2|1^0,2^1|3^0|3^0|3^0''"
    using compact_round_trip [of ?c "''2|1^0,2^1|3^0|3^0|3^0''"] ex by blast
  from a b show ?thesis by simp
qed

section \<open>Validation and canonical rotation leave the arrays alone\<close>

lemma unchanged_refl [simp]: "unchanged h h"
  by (simp add: unchanged_def)

lemma unchanged_append [simp]: "unchanged h (h @ cells)"
  by (simp add: unchanged_def)

lemma unchanged_length: "unchanged h h' \<Longrightarrow> length h \<le> length h'"
proof -
  assume "unchanged h h'"
  then have "length (take (length h) h') = length h" by (simp add: unchanged_def)
  then show ?thesis by simp
qed

lemma unchanged_trans: "unchanged h h1 \<Longrightarrow> unchanged h1 h2 \<Longrightarrow> unchanged h h2"
proof -
  assume a: "unchanged h h1" and b: "unchanged h1 h2"
  from a have le: "length h \<le> length h1" by (rule unchanged_length)
  have "take (length h) h2 = take (length h) (take (length h1) h2)"
    using le by (simp add: min_def)
  also have "\<dots> = take (length h) h1" using b by (simp add: unchanged_def)
  also have "\<dots> = h" using a by (simp add: unchanged_def)
  finally show ?thesis by (simp add: unchanged_def)
qed

lemma unchanged_nth: "unchanged h h' \<Longrightarrow> r < length h \<Longrightarrow> h' ! r = h ! r"
  unfolding unchanged_def by (metis nth_take)

lemma unchanged_segsOf: "unchanged h h' \<Longrightarrow> r < length h \<Longrightarrow> segsOf h' r = segsOf h r"
  using unchanged_nth [of h h' r] unchanged_length [of h h'] by (simp add: segsOf_def)

lemma unchanged_refsOf: "unchanged h h' \<Longrightarrow> r < length h \<Longrightarrow> refsOf h' r = refsOf h r"
  using unchanged_nth [of h h' r] unchanged_length [of h h'] by (simp add: refsOf_def)

lemma unchanged_map_segsOf:
  "unchanged h h' \<Longrightarrow> list_all (\<lambda>r. r < length h) es \<Longrightarrow> map (segsOf h') es = map (segsOf h) es"
  by (simp add: list_all_iff unchanged_segsOf)

lemma list_all_less_mono:
  "unchanged h h' \<Longrightarrow> list_all (\<lambda>r. r < length h) es \<Longrightarrow> list_all (\<lambda>r. r < length h') es"
  using unchanged_length [of h h'] by (auto simp: list_all_iff)

lemma sortedCopy_eq:
  "sortedCopy cmp h e = (length h, h @ [SegArray (sortWith cmp (segsOf h e))])"
  by (simp add: sortedCopy_def alloc_def sortInPlace_def segsOf_def)

lemma segsOf_new [simp]: "segsOf (h @ SegArray segs # cells) (length h) = segs"
  by (simp add: segsOf_def)

lemma segsOf_new2 [simp]: "segsOf (h @ [cell, SegArray segs]) (Suc (length h)) = segs"
  by (simp add: segsOf_def nth_append)

lemma segsOf_old [simp]: "r < length h \<Longrightarrow> segsOf (h @ cells) r = segsOf h r"
  by (simp add: segsOf_def nth_append)

lemma refsOf_old [simp]: "r < length h \<Longrightarrow> refsOf (h @ cells) r = refsOf h r"
  by (simp add: refsOf_def nth_append)

lemma refsOf_new [simp]: "refsOf (h @ EdgeArray refs # cells) (length h) = refs"
  by (simp add: refsOf_def)

lemma checkEdgeS_eq:
  "\<exists>h'. checkEdgeS c a ei h e = (checkEdge c a ei (segsOf h e), h') \<and> unchanged h h'"
  by (simp add: checkEdgeS_def checkEdge_def sortedCopy_eq)

lemma edgeLoopS_unchanged: "unchanged h (snd (edgeLoopS c a ei h es))"
proof (induction es arbitrary: h ei)
  case Nil
  show ?case by simp
next
  case (Cons e es)
  obtain h' where s: "checkEdgeS c a ei h e = (checkEdge c a ei (segsOf h e), h')"
    and u: "unchanged h h'"
    using checkEdgeS_eq by blast
  show ?case
  proof (cases "checkEdge c a ei (segsOf h e)")
    case (Inl x)
    with s u show ?thesis by simp
  next
    case (Inr ro)
    show ?thesis
    proof (cases ro)
      case None
      from Cons [of h' "Suc ei"] u have "unchanged h (snd (edgeLoopS c a (Suc ei) h' es))"
        by (rule unchanged_trans [rotated])
      with s Inr None show ?thesis by simp
    next
      case (Some r)
      with s u Inr show ?thesis by simp
    qed
  qed
qed

lemma edgeLoopS_eq:
  "list_all (\<lambda>r. r < length h) es \<Longrightarrow>
   fst (edgeLoopS c a ei h es) = edgeLoop c a ei (map (segsOf h) es)"
proof (induction es arbitrary: h ei)
  case Nil
  show ?case by simp
next
  case (Cons e es)
  obtain h' where s: "checkEdgeS c a ei h e = (checkEdge c a ei (segsOf h e), h')"
    and u: "unchanged h h'"
    using checkEdgeS_eq by blast
  from Cons.prems have es: "list_all (\<lambda>r. r < length h) es" by simp
  show ?case
  proof (cases "checkEdge c a ei (segsOf h e)")
    case (Inl x)
    with s show ?thesis by simp
  next
    case (Inr ro)
    show ?thesis
    proof (cases ro)
      case None
      have "fst (edgeLoopS c a (Suc ei) h' es) = edgeLoop c a (Suc ei) (map (segsOf h') es)"
        using list_all_less_mono [OF u es] by (rule Cons.IH)
      also have "map (segsOf h') es = map (segsOf h) es"
        using u es by (rule unchanged_map_segsOf)
      finally show ?thesis using s Inr None by simp
    next
      case (Some r)
      with s Inr show ?thesis by simp
    qed
  qed
qed

lemma refAt_edgeAt: "edgeAt (map f es) i = map_option f (refAt es i)"
  by (simp add: edgeAt_def refAt_def)

lemma refAt_Some: "refAt es i = Some r \<Longrightarrow> r \<in> set es"
  by (auto simp: refAt_def split: if_splits)

lemma cornerStepS_unchanged: "unchanged h (snd (cornerStepS c h es ei))"
  by (auto simp: cornerStepS_def sortedCopy_eq unchanged_def split: option.splits)

lemma cornerStepS_eq:
  assumes "unchanged h0 h" "list_all (\<lambda>r. r < length h0) es"
  shows "fst (cornerStepS c h es ei) = cornerStep c (map (segsOf h0) es) ei"
proof (cases "refAt es ei")
  case None
  then show ?thesis by (simp add: cornerStepS_def cornerStep_def refAt_edgeAt)
next
  case (Some edge)
  note e = this
  show ?thesis
  proof (cases "refAt es ((ei + 1) mod 4)")
    case None
    with e show ?thesis by (simp add: cornerStepS_def cornerStep_def refAt_edgeAt)
  next
    case (Some nextEdge)
    from e assms(2) have "edge < length h0" by (auto dest!: refAt_Some simp: list_all_iff)
    with assms(1) have a: "segsOf h edge = segsOf h0 edge" "edge < length h"
      using unchanged_length [OF assms(1)] by (simp_all add: unchanged_segsOf)
    from Some assms(2) have n0: "nextEdge < length h0"
      by (auto dest!: refAt_Some simp: list_all_iff)
    with assms(1) have b: "segsOf h nextEdge = segsOf h0 nextEdge" "nextEdge < length h"
      using unchanged_length [OF assms(1)] by (simp_all add: unchanged_segsOf)
    show ?thesis
      using e Some a b
      by (simp add: cornerStepS_def cornerStep_def refAt_edgeAt sortedCopy_eq)
  qed
qed

lemma cornerLoopS_unchanged: "unchanged h (snd (cornerLoopS c h es eis gap sizes))"
proof (induction eis arbitrary: h gap sizes)
  case Nil
  show ?case by simp
next
  case (Cons ei eis)
  obtain res h' where s: "cornerStepS c h es ei = (res, h')" by (cases "cornerStepS c h es ei")
  then have u: "unchanged h h'" using cornerStepS_unchanged [of h c es ei] by simp
  show ?case
  proof (cases res)
    case (Inl x)
    with s u show ?thesis by simp
  next
    case (Inr p)
    obtain g sz where p: "p = (g, sz)" by (cases p)
    from u Cons [of h' "gap \<or> g" "sizes @ [sz]"]
    have "unchanged h (snd (cornerLoopS c h' es eis (gap \<or> g) (sizes @ [sz])))"
      by (rule unchanged_trans)
    with s Inr p show ?thesis by simp
  qed
qed

lemma cornerLoopS_eq:
  assumes "list_all (\<lambda>r. r < length h0) es"
  shows "unchanged h0 h \<Longrightarrow>
     fst (cornerLoopS c h es eis gap sizes) = cornerLoop c (map (segsOf h0) es) eis gap sizes"
proof (induction eis arbitrary: h gap sizes)
  case Nil
  show ?case by simp
next
  case (Cons ei eis)
  obtain res h' where s: "cornerStepS c h es ei = (res, h')" by (cases "cornerStepS c h es ei")
  then have u: "unchanged h h'" using cornerStepS_unchanged [of h c es ei] by simp
  from s cornerStepS_eq [OF Cons.prems assms, of c ei]
  have res: "cornerStep c (map (segsOf h0) es) ei = res" by simp
  show ?case
  proof (cases res)
    case (Inl x)
    with s res show ?thesis by simp
  next
    case (Inr p)
    obtain g sz where p: "p = (g, sz)" by (cases p)
    have "unchanged h0 h'" using Cons.prems u by (rule unchanged_trans)
    from Cons.IH [OF this, of "gap \<or> g" "sizes @ [sz]"] s res Inr p
    show ?thesis by simp
  qed
qed

lemma validateS_unchanged: "unchanged h (snd (validateS h obj a))"
proof (cases "centerField obj")
  case (JNonInt t)
  then show ?thesis by (simp add: validateS_def)
next
  case (JInt c)
  let ?es = "refsOf h (edgesField obj)"
  obtain r1 h1 where e: "edgeLoopS c a 0 h ?es = (r1, h1)" by (cases "edgeLoopS c a 0 h ?es")
  then have u1: "unchanged h h1" using edgeLoopS_unchanged [of h c a 0 ?es] by simp
  obtain r2 h2 where k: "cornerLoopS c h1 ?es [0, 1, 2, 3] False [] = (r2, h2)"
    by (cases "cornerLoopS c h1 ?es [0, 1, 2, 3] False []")
  then have "unchanged h1 h2"
    using cornerLoopS_unchanged [of h1 c ?es "[0, 1, 2, 3]" False "[]"] by simp
  with u1 have u2: "unchanged h h2" by (rule unchanged_trans)
  show ?thesis
    using JInt e k u1 u2
    by (auto simp: validateS_def Let_def split: sum.splits option.splits prod.splits)
qed

lemma inStore_refs: "inStore h obj \<Longrightarrow> list_all (\<lambda>r. r < length h) (refsOf h (edgesField obj))"
  by (simp add: inStore_def)

lemma validateS_eq:
  assumes "inStore h obj"
  shows "fst (validateS h obj a) = validate (coronaIn h obj) a"
proof (cases "centerField obj")
  case (JNonInt t)
  then show ?thesis by (simp add: validateS_def validate_def coronaIn_def)
next
  case (JInt c)
  let ?es = "refsOf h (edgesField obj)"
  have refs: "list_all (\<lambda>r. r < length h) ?es" using assms by (rule inStore_refs)
  obtain r1 h1 where e: "edgeLoopS c a 0 h ?es = (r1, h1)" by (cases "edgeLoopS c a 0 h ?es")
  then have u1: "unchanged h h1" using edgeLoopS_unchanged [of h c a 0 ?es] by simp
  from e edgeLoopS_eq [OF refs, of c a 0]
  have r1: "edgeLoop c a 0 (map (segsOf h) ?es) = r1" by simp
  obtain r2 h2 where k: "cornerLoopS c h1 ?es [0, 1, 2, 3] False [] = (r2, h2)"
    by (cases "cornerLoopS c h1 ?es [0, 1, 2, 3] False []")
  with cornerLoopS_eq [OF refs u1, of c "[0, 1, 2, 3]" False "[]"]
  have r2: "cornerLoop c (map (segsOf h) ?es) [0, 1, 2, 3] False [] = r2" by simp
  show ?thesis
    using JInt e k r1 r2
    by (auto simp: validateS_def validate_def coronaIn_def Let_def
        split: sum.splits option.splits prod.splits)
qed

lemma refsOf_new2 [simp]: "refsOf (h @ cell # EdgeArray refs # cells) (Suc (length h)) = refs"
  by (simp add: refsOf_def nth_append)

lemma refsOf_new3 [simp]:
  "refsOf (h @ cell1 # cell2 # EdgeArray refs # cells) (Suc (Suc (length h))) = refs"
  by (simp add: refsOf_def nth_append)

lemma edgeKeyS_eq:
  "edgeKeyS h e = (edgeKey (segsOf h e), h @ [SegArray (sortWith byOffsetThenSize (segsOf h e))])"
  by (simp add: edgeKeyS_def edgeKey_def sortedCopy_eq)

lemma mapEdgeKeyS_unchanged: "unchanged h (snd (mapEdgeKeyS h es))"
proof (induction es arbitrary: h)
  case Nil
  show ?case by simp
next
  case (Cons e es)
  let ?h1 = "h @ [SegArray (sortWith byOffsetThenSize (segsOf h e))]"
  have "unchanged h ?h1" by simp
  from this Cons [of ?h1] have "unchanged h (snd (mapEdgeKeyS ?h1 es))"
    by (rule unchanged_trans)
  then show ?case by (simp add: edgeKeyS_eq case_prod_beta)
qed

lemma mapEdgeKeyS_eq:
  assumes "list_all (\<lambda>r. r < length h0) es"
  shows "unchanged h0 h \<Longrightarrow> fst (mapEdgeKeyS h es) = map (\<lambda>e. edgeKey (segsOf h0 e)) es"
  using assms
proof (induction es arbitrary: h)
  case Nil
  show ?case by simp
next
  case (Cons e es)
  let ?h1 = "h @ [SegArray (sortWith byOffsetThenSize (segsOf h e))]"
  from Cons.prems have e: "e < length h0" and es: "list_all (\<lambda>r. r < length h0) es" by simp_all
  have "unchanged h ?h1" by simp
  with Cons.prems(1) have "unchanged h0 ?h1" by (rule unchanged_trans)
  from Cons.IH [OF this es] have "fst (mapEdgeKeyS ?h1 es) = map (\<lambda>e. edgeKey (segsOf h0 e)) es" .
  moreover have "segsOf h e = segsOf h0 e" using Cons.prems(1) e by (rule unchanged_segsOf)
  ultimately show ?case by (simp add: edgeKeyS_eq case_prod_beta)
qed

lemma rotKeyS_form:
  "er < length h \<Longrightarrow>
   rotKeyS h er k =
     (case mapEdgeKeyS (h @ [EdgeArray (drop k (refsOf h er)), EdgeArray (take k (refsOf h er)),
                             EdgeArray (drop k (refsOf h er) @ take k (refsOf h er))])
             (drop k (refsOf h er) @ take k (refsOf h er)) of
        (ks, h4) \<Rightarrow> (join '';'' ks, h4))"
  by (simp add: rotKeyS_def alloc_def)

lemma rotKeyS_unchanged:
  assumes "er < length h"
  shows "unchanged h (snd (rotKeyS h er k))"
proof -
  let ?h3 = "h @ [EdgeArray (drop k (refsOf h er)), EdgeArray (take k (refsOf h er)),
                  EdgeArray (drop k (refsOf h er) @ take k (refsOf h er))]"
  have "unchanged h ?h3" by simp
  from this mapEdgeKeyS_unchanged [of ?h3 "drop k (refsOf h er) @ take k (refsOf h er)"]
  have "unchanged h (snd (mapEdgeKeyS ?h3 (drop k (refsOf h er) @ take k (refsOf h er))))"
    by (rule unchanged_trans)
  then show ?thesis by (simp add: rotKeyS_form [OF assms] case_prod_beta)
qed

lemma rotKeyS_eq:
  assumes "er < length h0" "list_all (\<lambda>r. r < length h0) (refsOf h0 er)" "unchanged h0 h"
  shows "fst (rotKeyS h er k) = rotKey (map (segsOf h0) (refsOf h0 er)) k"
proof -
  let ?refs = "refsOf h0 er"
  have er: "er < length h" using assms(1) unchanged_length [OF assms(3)] by simp
  have refs: "refsOf h er = ?refs" using assms(3,1) by (rule unchanged_refsOf)
  let ?h3 = "h @ [EdgeArray (drop k ?refs), EdgeArray (take k ?refs),
                  EdgeArray (drop k ?refs @ take k ?refs)]"
  have "unchanged h ?h3" by simp
  with assms(3) have u: "unchanged h0 ?h3" by (rule unchanged_trans)
  have "list_all (\<lambda>r. r < length h0) (drop k ?refs @ take k ?refs)"
    using assms(2) by (auto simp: list_all_iff dest: in_set_dropD in_set_takeD)
  from mapEdgeKeyS_eq [OF this u]
  have "fst (mapEdgeKeyS ?h3 (drop k ?refs @ take k ?refs)) =
      map (\<lambda>e. edgeKey (segsOf h0 e)) (drop k ?refs @ take k ?refs)" .
  then show ?thesis
    by (simp add: rotKeyS_form [OF er] refs rotKey_def rot_def drop_map take_map comp_def
        case_prod_beta)
qed

lemma keysLoopS_unchanged:
  "er < length h \<Longrightarrow> unchanged h (snd (keysLoopS h er ks keys))"
proof (induction ks arbitrary: h keys)
  case Nil
  show ?case by simp
next
  case (Cons k ks)
  obtain key h' where s: "rotKeyS h er k = (key, h')" by (cases "rotKeyS h er k")
  then have u: "unchanged h h'" using rotKeyS_unchanged [OF Cons.prems, of k] by simp
  then have "er < length h'" using Cons.prems unchanged_length by fastforce
  from u Cons.IH [OF this, of "keys @ [key]"]
  have "unchanged h (snd (keysLoopS h' er ks (keys @ [key])))" by (rule unchanged_trans)
  with s show ?case by simp
qed

lemma keysLoopS_eq:
  assumes "er < length h0" "list_all (\<lambda>r. r < length h0) (refsOf h0 er)"
  shows "unchanged h0 h \<Longrightarrow>
     fst (keysLoopS h er ks keys) = keys @ map (rotKey (map (segsOf h0) (refsOf h0 er))) ks"
proof (induction ks arbitrary: h keys)
  case Nil
  show ?case by simp
next
  case (Cons k ks)
  have er: "er < length h" using assms(1) unchanged_length [OF Cons.prems] by simp
  obtain key h' where s: "rotKeyS h er k = (key, h')" by (cases "rotKeyS h er k")
  then have u: "unchanged h h'" using rotKeyS_unchanged [OF er, of k] by simp
  with Cons.prems have u0: "unchanged h0 h'" by (rule unchanged_trans)
  from s rotKeyS_eq [OF assms Cons.prems, of k]
  have key: "key = rotKey (map (segsOf h0) (refsOf h0 er)) k" by simp
  from Cons.IH [OF u0, of "keys @ [key]"] s key show ?case by simp
qed

lemma canonicalS_unchanged:
  "er < length h \<Longrightarrow> unchanged h (snd (canonicalRotationEdgesS h er))"
  using keysLoopS_unchanged [of er h "[0, 1, 2, 3]" "[]"]
  by (simp add: canonicalRotationEdgesS_def case_prod_beta)

lemma canonicalS_eq:
  assumes "er < length h0" "list_all (\<lambda>r. r < length h0) (refsOf h0 er)" "unchanged h0 h"
  shows "fst (canonicalRotationEdgesS h er) =
     canonicalRotationEdges (map (segsOf h0) (refsOf h0 er))"
  using keysLoopS_eq [OF assms, of "[0, 1, 2, 3]" "[]"]
  by (simp add: canonicalRotationEdgesS_def canonicalRotationEdges_def case_prod_beta)

lemma coronaIn_unchanged:
  assumes "inStore h obj" "unchanged h h'"
  shows "coronaIn h' obj = coronaIn h obj" "inStore h' obj"
proof -
  from assms(1) have er: "edgesField obj < length h"
    and refs: "list_all (\<lambda>r. r < length h) (refsOf h (edgesField obj))"
    by (simp_all add: inStore_def)
  have r: "refsOf h' (edgesField obj) = refsOf h (edgesField obj)"
    using assms(2) er by (rule unchanged_refsOf)
  show "coronaIn h' obj = coronaIn h obj"
    by (simp add: coronaIn_def r unchanged_map_segsOf [OF assms(2) refs])
  show "inStore h' obj"
    using er unchanged_length [OF assms(2)] list_all_less_mono [OF assms(2) refs]
    by (simp add: inStore_def r)
qed

lemma sortInPlace_mutates:
  "sortInPlace byOffsetThenSize [SegArray [mkSeg 2 1, mkSeg 1 0]] 0 =
     [SegArray [mkSeg 1 0, mkSeg 2 1]] \<and>
   \<not> unchanged [SegArray [mkSeg 2 1, mkSeg 1 0]]
        (sortInPlace byOffsetThenSize [SegArray [mkSeg 2 1, mkSeg 1 0]] 0)"
  by (simp add: sortInPlace_def segsOf_def sortWith_def byOffsetThenSize_def mkSeg_def
      unchanged_def)

text \<open>
  Claim C8. \<open>validate\<close> (with any allowed sizes) and \<open>canonicalRotationEdges\<close> leave every
  array of the caller's store as it was: the array of edges, each edge array, in order
  and contents; every sort works on an array allocated by the function itself. The
  Corona read from the store afterwards is the Corona read before, the results are
  those of the functions on that value, and canonical rotation after validation gives
  the key of the Corona as it was before validation. (The fields \<^verbatim>\<open>center\<close> and
  \<^verbatim>\<open>edges\<close> of the object are never assigned: the object is a pair of values.)
\<close>

theorem validate_and_canonical_leave_store:
  "unchanged h (snd (validateS h obj allowedSizes)) \<and>
   (inStore h obj \<longrightarrow>
      unchanged h (snd (canonicalRotationEdgesS h (edgesField obj))) \<and>
      coronaIn (snd (validateS h obj allowedSizes)) obj = coronaIn h obj \<and>
      coronaIn (snd (canonicalRotationEdgesS h (edgesField obj))) obj = coronaIn h obj \<and>
      fst (validateS h obj allowedSizes) = validate (coronaIn h obj) allowedSizes \<and>
      fst (canonicalRotationEdgesS h (edgesField obj)) =
        canonicalRotationEdges (edges (coronaIn h obj)) \<and>
      fst (canonicalRotationEdgesS (snd (validateS h obj allowedSizes)) (edgesField obj)) =
        canonicalRotationEdges (edges (coronaIn h obj)))"
proof (intro conjI impI)
  show v: "unchanged h (snd (validateS h obj allowedSizes))"
    by (rule validateS_unchanged)
  assume i: "inStore h obj"
  then have er: "edgesField obj < length h"
    and refs: "list_all (\<lambda>r. r < length h) (refsOf h (edgesField obj))"
    by (simp_all add: inStore_def)
  show k: "unchanged h (snd (canonicalRotationEdgesS h (edgesField obj)))"
    using er by (rule canonicalS_unchanged)
  show "coronaIn (snd (validateS h obj allowedSizes)) obj = coronaIn h obj"
    using i v by (rule coronaIn_unchanged)
  show "coronaIn (snd (canonicalRotationEdgesS h (edgesField obj))) obj = coronaIn h obj"
    using i k by (rule coronaIn_unchanged)
  show "fst (validateS h obj allowedSizes) = validate (coronaIn h obj) allowedSizes"
    using i by (rule validateS_eq)
  have e: "edges (coronaIn h obj) = map (segsOf h) (refsOf h (edgesField obj))"
    by (simp add: coronaIn_def)
  show "fst (canonicalRotationEdgesS h (edgesField obj)) =
        canonicalRotationEdges (edges (coronaIn h obj))"
    unfolding e using er refs unchanged_refl by (rule canonicalS_eq)
  show "fst (canonicalRotationEdgesS (snd (validateS h obj allowedSizes)) (edgesField obj)) =
        canonicalRotationEdges (edges (coronaIn h obj))"
    unfolding e using er refs v by (rule canonicalS_eq)
qed

theorem validate_and_canonical_leave_store_witness:
  "unchanged [SegArray [mkSeg 2 1, mkSeg 1 0], SegArray [mkSeg 3 0], EdgeArray [0, 0, 1, 0]]
     (snd (validateS [SegArray [mkSeg 2 1, mkSeg 1 0], SegArray [mkSeg 3 0], EdgeArray [0, 0, 1, 0]]
        \<lparr>centerField = JInt 2, edgesField = 2\<rparr> defaultSizes)) \<and>
   unchanged [SegArray [mkSeg 2 1, mkSeg 1 0], SegArray [mkSeg 3 0], EdgeArray [0, 0, 1, 0]]
     (snd (canonicalRotationEdgesS
        [SegArray [mkSeg 2 1, mkSeg 1 0], SegArray [mkSeg 3 0], EdgeArray [0, 0, 1, 0]] 2)) \<and>
   fst (validateS [SegArray [mkSeg 2 1, mkSeg 1 0], SegArray [mkSeg 3 0], EdgeArray [0, 0, 1, 0]]
        \<lparr>centerField = JInt 2, edgesField = 2\<rparr> defaultSizes) =
     validate \<lparr>center = JInt 2, edges = [[mkSeg 2 1, mkSeg 1 0], [mkSeg 2 1, mkSeg 1 0],
        [mkSeg 3 0], [mkSeg 2 1, mkSeg 1 0]]\<rparr> defaultSizes"
proof -
  let ?h = "[SegArray [mkSeg 2 1, mkSeg 1 0], SegArray [mkSeg 3 0], EdgeArray [0, 0, 1, 0]]"
  let ?obj = "\<lparr>centerField = JInt 2, edgesField = 2\<rparr>"
  have i: "inStore ?h ?obj" by (simp add: inStore_def refsOf_def)
  have c: "coronaIn ?h ?obj = \<lparr>center = JInt 2, edges = [[mkSeg 2 1, mkSeg 1 0],
      [mkSeg 2 1, mkSeg 1 0], [mkSeg 3 0], [mkSeg 2 1, mkSeg 1 0]]\<rparr>"
    by (simp add: coronaIn_def refsOf_def segsOf_def)
  have e: "edgesField ?obj = 2" by simp
  note t = validate_and_canonical_leave_store [of ?h ?obj defaultSizes]
  from t have a: "unchanged ?h (snd (validateS ?h ?obj defaultSizes))" by (rule conjunct1)
  from t i have b: "unchanged ?h (snd (canonicalRotationEdgesS ?h (edgesField ?obj))) \<and>
      coronaIn (snd (validateS ?h ?obj defaultSizes)) ?obj = coronaIn ?h ?obj \<and>
      coronaIn (snd (canonicalRotationEdgesS ?h (edgesField ?obj))) ?obj = coronaIn ?h ?obj \<and>
      fst (validateS ?h ?obj defaultSizes) = validate (coronaIn ?h ?obj) defaultSizes \<and>
      fst (canonicalRotationEdgesS ?h (edgesField ?obj)) =
        canonicalRotationEdges (edges (coronaIn ?h ?obj)) \<and>
      fst (canonicalRotationEdgesS (snd (validateS ?h ?obj defaultSizes)) (edgesField ?obj)) =
        canonicalRotationEdges (edges (coronaIn ?h ?obj))"
    by (rule conjunct2 [THEN mp])
  from b have b1: "unchanged ?h (snd (canonicalRotationEdgesS ?h (edgesField ?obj)))"
    by (rule conjunct1)
  from b have b4: "fst (validateS ?h ?obj defaultSizes) = validate (coronaIn ?h ?obj) defaultSizes"
    by (elim conjE)
  show ?thesis
  proof (intro conjI)
    show "unchanged ?h (snd (validateS ?h ?obj defaultSizes))" by (rule a)
    show "unchanged ?h (snd (canonicalRotationEdgesS ?h 2))" using b1 unfolding e .
    show "fst (validateS ?h ?obj defaultSizes) =
        validate \<lparr>center = JInt 2, edges = [[mkSeg 2 1, mkSeg 1 0], [mkSeg 2 1, mkSeg 1 0],
        [mkSeg 3 0], [mkSeg 2 1, mkSeg 1 0]]\<rparr> defaultSizes"
      using b4 unfolding c .
  qed
qed

section \<open>The enumeration for center 1\<close>

lemma set_firstOccurrences: "set (firstOccurrences key xs) \<subseteq> set xs"
  by (induction key xs rule: firstOccurrences.induct) auto

lemma keys_firstOccurrences: "key ` set (firstOccurrences key xs) = key ` set xs"
proof (induction key xs rule: firstOccurrences.induct)
  case (1 key)
  show ?case by simp
next
  case (2 key x xs)
  have "key ` set (x # xs) = insert (key x) (key ` set (filter (\<lambda>y. key y \<noteq> key x) xs))"
    by auto
  with 2 show ?case by simp
qed

lemma distinct_firstOccurrences: "distinct (map key (firstOccurrences key xs))"
proof (induction key xs rule: firstOccurrences.induct)
  case (1 key)
  show ?case by simp
next
  case (2 key x xs)
  have "key x \<notin> key ` set (filter (\<lambda>y. key y \<noteq> key x) xs)" by auto
  then have "key x \<notin> key ` set (firstOccurrences key (filter (\<lambda>y. key y \<noteq> key x) xs))"
    using keys_firstOccurrences [of key "filter (\<lambda>y. key y \<noteq> key x) xs"] by blast
  with 2 show ?case by simp
qed

lemma enumStep_cases:
  "enumStep es (seen, unique) =
     Inr (if passes es \<and> canonicalRotationEdges es \<notin> seen
          then (insert (canonicalRotationEdges es) seen, unique @ [coronaOf es])
          else (seen, unique))"
proof -
  obtain r where "validate (coronaOf es) [1, 2, 3, 4] = Inr r"
    using validate_returns by blast
  then show ?thesis
    by (simp add: enumStep_def passes_def coronaOf_def Let_def)
qed

lemma enumLoop_firstOccurrences:
  "enumLoop cs (seen, unique) =
     Inr (seen \<union> canonicalRotationEdges ` set (filter passes cs),
          unique @ map coronaOf (firstOccurrences canonicalRotationEdges
            (filter (\<lambda>es. canonicalRotationEdges es \<notin> seen) (filter passes cs))))"
proof (induction cs arbitrary: seen unique)
  case Nil
  show ?case by simp
next
  case (Cons es cs)
  show ?case
  proof (cases "passes es \<and> canonicalRotationEdges es \<notin> seen")
    case True
    have f: "filter (\<lambda>y. canonicalRotationEdges y \<noteq> canonicalRotationEdges es)
        (filter (\<lambda>es. canonicalRotationEdges es \<notin> seen) (filter passes cs)) =
      filter (\<lambda>y. canonicalRotationEdges y \<notin> insert (canonicalRotationEdges es) seen)
        (filter passes cs)"
      unfolding filter_filter by (rule filter_cong) auto
    from True show ?thesis
      by (simp add: enumStep_cases Cons.IH f del: filter_filter)
  next
    case False
    then show ?thesis
      by (auto simp: enumStep_cases Cons.IH)
  qed
qed

lemma all_pass: "list_all passes combinations"
  by code_simp

lemma all_valid:
  "list_all (\<lambda>es. validate \<lparr>center = JInt 1, edges = es\<rparr> [1, 2, 3, 4] = Inr success) combinations"
  by code_simp

lemma enumerate_firstOccurrences:
  "enumerateUniqueCoronasCenter1 =
     Inr (map coronaOf (firstOccurrences canonicalRotationEdges combinations))"
proof -
  have "filter passes combinations = combinations"
    using all_pass by (simp add: list_all_iff)
  then show ?thesis
    by (simp add: enumerateUniqueCoronasCenter1_def enumLoop_firstOccurrences)
qed

lemma enumerate_value: "enumerateUniqueCoronasCenter1 = Inr expectedCoronas"
  by code_simp

lemma expected_compact:
  "map toCompact expectedCoronas =
    [''1|2^0|2^0|2^0|2^0'', ''1|2^0|2^0|2^0|3^0'', ''1|2^0|2^0|2^0|4^0'',
     ''1|2^0|2^0|3^0|3^0'', ''1|2^0|2^0|3^0|4^0'', ''1|2^0|2^0|4^0|3^0'',
     ''1|2^0|2^0|4^0|4^0'', ''1|2^0|3^0|2^0|3^0'', ''1|2^0|3^0|2^0|4^0'',
     ''1|2^0|3^0|3^0|3^0'', ''1|2^0|3^0|3^0|4^0'', ''1|2^0|3^0|4^0|3^0'',
     ''1|2^0|3^0|4^0|4^0'', ''1|2^0|4^0|2^0|4^0'', ''1|2^0|4^0|3^0|3^0'',
     ''1|2^0|4^0|3^0|4^0'', ''1|2^0|4^0|4^0|3^0'', ''1|2^0|4^0|4^0|4^0'',
     ''1|3^0|3^0|3^0|3^0'', ''1|3^0|3^0|3^0|4^0'', ''1|3^0|3^0|4^0|4^0'',
     ''1|3^0|4^0|3^0|4^0'', ''1|3^0|4^0|4^0|4^0'', ''1|4^0|4^0|4^0|4^0'']"
  by code_simp

lemma combinations_set:
  "set combinations =
     {[e0, e1, e2, e3] | e0 e1 e2 e3.
        e0 \<in> set edgeChoices \<and> e1 \<in> set edgeChoices \<and> e2 \<in> set edgeChoices \<and> e3 \<in> set edgeChoices}"
  unfolding combinations_def by auto

text \<open>
  Claim C2. The enumeration for center 1 runs over the 81 tuples of four edges taken
  from the three single-segment walks of sizes 2, 3 and 4 at offset 0. All 81 pass
  \<open>validate\<close> over the sizes 1 to 4. It returns 24 Coronas; their canonical keys are
  pairwise distinct; the key of each of the 81 tuples is the key of a returned Corona;
  and the returned list holds, in the order of the loops, the tuples that are the first
  with their key.
\<close>

theorem enumerate_center1:
  "edgeChoices = [[mkSeg 2 0], [mkSeg 3 0], [mkSeg 4 0]] \<and>
   set combinations =
     {[e0, e1, e2, e3] | e0 e1 e2 e3.
        e0 \<in> set edgeChoices \<and> e1 \<in> set edgeChoices \<and> e2 \<in> set edgeChoices \<and> e3 \<in> set edgeChoices} \<and>
   length combinations = 81 \<and>
   list_all (\<lambda>es. validate \<lparr>center = JInt 1, edges = es\<rparr> [1, 2, 3, 4] = Inr success)
     combinations \<and>
   (\<exists>unique. enumerateUniqueCoronasCenter1 = Inr unique \<and>
      length unique = 24 \<and>
      distinct (map (\<lambda>cor. canonicalRotationEdges (edges cor)) unique) \<and>
      list_all (\<lambda>es. canonicalRotationEdges es \<in>
                  set (map (\<lambda>cor. canonicalRotationEdges (edges cor)) unique)) combinations \<and>
      unique = map coronaOf (firstOccurrences canonicalRotationEdges combinations) \<and>
      unique = expectedCoronas \<and>
      map toCompact unique =
        [''1|2^0|2^0|2^0|2^0'', ''1|2^0|2^0|2^0|3^0'', ''1|2^0|2^0|2^0|4^0'',
         ''1|2^0|2^0|3^0|3^0'', ''1|2^0|2^0|3^0|4^0'', ''1|2^0|2^0|4^0|3^0'',
         ''1|2^0|2^0|4^0|4^0'', ''1|2^0|3^0|2^0|3^0'', ''1|2^0|3^0|2^0|4^0'',
         ''1|2^0|3^0|3^0|3^0'', ''1|2^0|3^0|3^0|4^0'', ''1|2^0|3^0|4^0|3^0'',
         ''1|2^0|3^0|4^0|4^0'', ''1|2^0|4^0|2^0|4^0'', ''1|2^0|4^0|3^0|3^0'',
         ''1|2^0|4^0|3^0|4^0'', ''1|2^0|4^0|4^0|3^0'', ''1|2^0|4^0|4^0|4^0'',
         ''1|3^0|3^0|3^0|3^0'', ''1|3^0|3^0|3^0|4^0'', ''1|3^0|3^0|4^0|4^0'',
         ''1|3^0|4^0|3^0|4^0'', ''1|3^0|4^0|4^0|4^0'', ''1|4^0|4^0|4^0|4^0''])"
proof -
  let ?u = "map coronaOf (firstOccurrences canonicalRotationEdges combinations)"
  have keys: "map (\<lambda>cor. canonicalRotationEdges (edges cor)) ?u =
      map canonicalRotationEdges (firstOccurrences canonicalRotationEdges combinations)"
    by (simp add: coronaOf_def comp_def)
  have u: "?u = expectedCoronas"
  proof -
    from enumerate_firstOccurrences have "Inr ?u = enumerateUniqueCoronasCenter1"
      by (rule sym)
    also have "\<dots> = Inr expectedCoronas" by (rule enumerate_value)
    finally show ?thesis by simp
  qed
  have len: "length ?u = 24"
    unfolding u by (simp add: expectedCoronas_def expectedSizes_def)
  have d: "distinct (map (\<lambda>cor. canonicalRotationEdges (edges cor)) ?u)"
    unfolding keys by (rule distinct_firstOccurrences)
  have cover: "list_all (\<lambda>es. canonicalRotationEdges es \<in>
      set (map (\<lambda>cor. canonicalRotationEdges (edges cor)) ?u)) combinations"
    unfolding keys list_all_iff
    using keys_firstOccurrences [of canonicalRotationEdges combinations] by auto
  have l81: "length combinations = 81"
    by (simp add: combinations_def edgeChoices_def)
  have compact: "map toCompact ?u =
        [''1|2^0|2^0|2^0|2^0'', ''1|2^0|2^0|2^0|3^0'', ''1|2^0|2^0|2^0|4^0'',
         ''1|2^0|2^0|3^0|3^0'', ''1|2^0|2^0|3^0|4^0'', ''1|2^0|2^0|4^0|3^0'',
         ''1|2^0|2^0|4^0|4^0'', ''1|2^0|3^0|2^0|3^0'', ''1|2^0|3^0|2^0|4^0'',
         ''1|2^0|3^0|3^0|3^0'', ''1|2^0|3^0|3^0|4^0'', ''1|2^0|3^0|4^0|3^0'',
         ''1|2^0|3^0|4^0|4^0'', ''1|2^0|4^0|2^0|4^0'', ''1|2^0|4^0|3^0|3^0'',
         ''1|2^0|4^0|3^0|4^0'', ''1|2^0|4^0|4^0|3^0'', ''1|2^0|4^0|4^0|4^0'',
         ''1|3^0|3^0|3^0|3^0'', ''1|3^0|3^0|3^0|4^0'', ''1|3^0|3^0|4^0|4^0'',
         ''1|3^0|4^0|3^0|4^0'', ''1|3^0|4^0|4^0|4^0'', ''1|4^0|4^0|4^0|4^0'']"
    unfolding u by (rule expected_compact)
  have ec: "edgeChoices = [[mkSeg 2 0], [mkSeg 3 0], [mkSeg 4 0]]"
    by (simp add: edgeChoices_def)
  have ex: "\<exists>unique. enumerateUniqueCoronasCenter1 = Inr unique \<and>
      length unique = 24 \<and>
      distinct (map (\<lambda>cor. canonicalRotationEdges (edges cor)) unique) \<and>
      list_all (\<lambda>es. canonicalRotationEdges es \<in>
                  set (map (\<lambda>cor. canonicalRotationEdges (edges cor)) unique)) combinations \<and>
      unique = map coronaOf (firstOccurrences canonicalRotationEdges combinations) \<and>
      unique = expectedCoronas \<and>
      map toCompact unique =
        [''1|2^0|2^0|2^0|2^0'', ''1|2^0|2^0|2^0|3^0'', ''1|2^0|2^0|2^0|4^0'',
         ''1|2^0|2^0|3^0|3^0'', ''1|2^0|2^0|3^0|4^0'', ''1|2^0|2^0|4^0|3^0'',
         ''1|2^0|2^0|4^0|4^0'', ''1|2^0|3^0|2^0|3^0'', ''1|2^0|3^0|2^0|4^0'',
         ''1|2^0|3^0|3^0|3^0'', ''1|2^0|3^0|3^0|4^0'', ''1|2^0|3^0|4^0|3^0'',
         ''1|2^0|3^0|4^0|4^0'', ''1|2^0|4^0|2^0|4^0'', ''1|2^0|4^0|3^0|3^0'',
         ''1|2^0|4^0|3^0|4^0'', ''1|2^0|4^0|4^0|3^0'', ''1|2^0|4^0|4^0|4^0'',
         ''1|3^0|3^0|3^0|3^0'', ''1|3^0|3^0|3^0|4^0'', ''1|3^0|3^0|4^0|4^0'',
         ''1|3^0|4^0|3^0|4^0'', ''1|3^0|4^0|4^0|4^0'', ''1|4^0|4^0|4^0|4^0'']"
  proof (intro exI [of _ ?u] conjI)
    show "enumerateUniqueCoronasCenter1 = Inr ?u" by (rule enumerate_firstOccurrences)
    show "length ?u = 24" by (rule len)
    show "distinct (map (\<lambda>cor. canonicalRotationEdges (edges cor)) ?u)" by (rule d)
    show "list_all (\<lambda>es. canonicalRotationEdges es \<in>
        set (map (\<lambda>cor. canonicalRotationEdges (edges cor)) ?u)) combinations" by (rule cover)
    show "?u = ?u" by (rule refl)
    show "?u = expectedCoronas" by (rule u)
    show "map toCompact ?u =
        [''1|2^0|2^0|2^0|2^0'', ''1|2^0|2^0|2^0|3^0'', ''1|2^0|2^0|2^0|4^0'',
         ''1|2^0|2^0|3^0|3^0'', ''1|2^0|2^0|3^0|4^0'', ''1|2^0|2^0|4^0|3^0'',
         ''1|2^0|2^0|4^0|4^0'', ''1|2^0|3^0|2^0|3^0'', ''1|2^0|3^0|2^0|4^0'',
         ''1|2^0|3^0|3^0|3^0'', ''1|2^0|3^0|3^0|4^0'', ''1|2^0|3^0|4^0|3^0'',
         ''1|2^0|3^0|4^0|4^0'', ''1|2^0|4^0|2^0|4^0'', ''1|2^0|4^0|3^0|3^0'',
         ''1|2^0|4^0|3^0|4^0'', ''1|2^0|4^0|4^0|3^0'', ''1|2^0|4^0|4^0|4^0'',
         ''1|3^0|3^0|3^0|3^0'', ''1|3^0|3^0|3^0|4^0'', ''1|3^0|3^0|4^0|4^0'',
         ''1|3^0|4^0|3^0|4^0'', ''1|3^0|4^0|4^0|4^0'', ''1|4^0|4^0|4^0|4^0'']"
      by (rule compact)
  qed
  show ?thesis
  proof (intro conjI)
    show "edgeChoices = [[mkSeg 2 0], [mkSeg 3 0], [mkSeg 4 0]]" by (rule ec)
    show "length combinations = 81" by (rule l81)
  qed (rule combinations_set all_valid ex)+
qed

end
